theory Spec2Isabelle
  imports Main "HOL-Library.Word" "HOL-Library.Multiset"
begin

section \<open>Python values used by \<open>pundun/client.py\<close>\<close>

text \<open>
  A Python \<open>bytes\<close> object is a list of octets, a Python \<open>int\<close> is an unbounded
  integer.  Every exception the modelled code can raise is a value of \<open>exn\<close>; a
  fallible operation returns \<open>exn + 'a\<close> with \<open>Inl\<close> for the raise.
\<close>

type_synonym byte = "8 word"
type_synonym bytes = "byte list"

datatype exn =
    OverflowError
  | ValueError
  | IncompleteReadError
  | QueueFull
  | TimeoutError
  | CancelledError
  | KeyError
  | DecodeError
  | RuntimeError

text \<open>
  \<open>n.to_bytes(k, byteorder='big')\<close>: the \<open>k\<close> base-256 digits of \<open>n\<close>, most
  significant first; OverflowError when \<open>n\<close> is negative or does not fit.
\<close>

fun be_digits :: "nat \<Rightarrow> int \<Rightarrow> bytes" where
  "be_digits 0 n = []"
| "be_digits (Suc k) n = be_digits k (n div 256) @ [word_of_int (n mod 256)]"

definition to_bytes :: "int \<Rightarrow> nat \<Rightarrow> exn + bytes" where
  "to_bytes n k = (if n < 0 \<or> 256 ^ k \<le> n then Inl OverflowError else Inr (be_digits k n))"

text \<open>\<open>int.from_bytes(bs, byteorder='big')\<close> (unsigned).\<close>

definition from_bytes :: "bytes \<Rightarrow> int" where
  "from_bytes bs = foldl (\<lambda>acc b. acc * 256 + uint b) 0 bs"

text \<open>
  \<open>StreamReader.readexactly(n)\<close> on a stream whose remaining input is \<open>buf\<close> (the
  bytes the peer sends before it closes the connection).  The result is paired with
  the input left in the stream: a negative \<open>n\<close> raises ValueError and consumes
  nothing, a stream that ends early raises IncompleteReadError and is drained.
\<close>

definition readexactly :: "int \<Rightarrow> bytes \<Rightarrow> (exn + bytes) \<times> bytes" where
  "readexactly n buf =
     (if n < 0 then (Inl ValueError, buf)
      else if length buf < nat n then (Inl IncompleteReadError, [])
      else (Inr (take (nat n) buf), drop (nat n) buf))"

section \<open>The frame codec\<close>

text \<open>
  Lines 393--399 of \<open>_write_pdu\<close>: the frame for correlation id \<open>c\<close> and serialized
  pdu \<open>data\<close>.  The cid is converted first, then the length.
\<close>

definition encode :: "int \<Rightarrow> bytes \<Rightarrow> exn + bytes" where
  "encode c data =
     (case to_bytes c 2 of
        Inl e \<Rightarrow> Inl e
      | Inr cid_bytes \<Rightarrow>
          (case to_bytes (int (length data) + 2) 4 of
             Inl e \<Rightarrow> Inl e
           | Inr len_bytes \<Rightarrow> Inr (len_bytes @ cid_bytes @ data)))"

text \<open>
  Lines 55--59 of \<open>_listener\<close>: three reads, the third of \<open>length - 2\<close> bytes.  The
  result is the cid and the payload, or the exception raised, with the input left.
\<close>

definition read_frame :: "bytes \<Rightarrow> (exn + int \<times> bytes) \<times> bytes" where
  "read_frame buf =
     (case readexactly 4 buf of
        (Inl e, b1) \<Rightarrow> (Inl e, b1)
      | (Inr len_bytes, b1) \<Rightarrow>
          (case readexactly 2 b1 of
             (Inl e, b2) \<Rightarrow> (Inl e, b2)
           | (Inr cid_bytes, b2) \<Rightarrow>
               (case readexactly (from_bytes len_bytes - 2) b2 of
                  (Inl e, b3) \<Rightarrow> (Inl e, b3)
                | (Inr data, b3) \<Rightarrow> (Inr (from_bytes cid_bytes, data), b3))))"

section \<open>The client object\<close>

text \<open>
  Each call of \<open>_write_pdu\<close> creates one \<open>asyncio.Queue(maxsize = 1)\<close> and then
  suspends in \<open>wait_for\<close>.  The suspended call is a \<open>waiter\<close>: its local \<open>cid\<close>, the
  items of its local queue \<open>q\<close>, whether \<open>cancel()\<close> was called on its task and
  whether it has returned.  The calls are kept in creation order, so the index of a
  call is the identity of its queue object, and \<open>message_dict\<close> maps a cid to such a
  reference (the dict stores the queue object, not a copy).
\<close>

record waiter =
  w_cid :: int
  w_q :: "bytes list"
  w_cancel :: bool
  w_done :: bool

text \<open>
  The stream writer: the arguments of the \<open>write\<close> calls made so far, and whether it
  was closed.
\<close>

record stream_writer =
  written :: "bytes list"
  closed :: bool

datatype listener_state = Running | CancelRequested | Stopped

text \<open>
  What the send path does to the socket and to the dict is also logged, in the order
  in which it happens: a \<open>write\<close> call with its argument, a dict assignment with its
  cid and the queue stored.
\<close>

datatype event = EvWrite bytes | EvRegister int nat

text \<open>
  The client with its event loop: the loop owns the tasks (the suspended calls and
  the listener) and can be closed.
\<close>

record client =
  tid :: int
  cid :: int
  message_dict :: "int \<rightharpoonup> nat"
  calls :: "waiter list"
  reader :: bytes
  writer :: stream_writer
  listener_task :: listener_state
  loop_closed :: bool
  trace :: "event list"

text \<open>
  \<open>__init__\<close>: both counters 0, an empty dict, a new event loop, the streams
  returned by \<open>_connect\<close> and the listener scheduled.
\<close>

definition init :: "bytes \<Rightarrow> client" where
  "init input =
     \<lparr>tid = 0, cid = 0, message_dict = Map.empty, calls = [], reader = input,
      writer = \<lparr>written = [], closed = False\<rparr>, listener_task = Running,
      loop_closed = False, trace = []\<rparr>"

section \<open>The sequence allocators\<close>

definition get_tid :: "client \<Rightarrow> int \<times> client" where
  "get_tid s = (tid s, if tid s = 4294967295 then s\<lparr>tid := 0\<rparr> else s\<lparr>tid := tid s + 1\<rparr>)"

definition get_cid :: "client \<Rightarrow> int \<times> client" where
  "get_cid s = (cid s, if cid s = 65535 then s\<lparr>cid := 0\<rparr> else s\<lparr>cid := cid s + 1\<rparr>)"

text \<open>\<open>n\<close> successive calls of \<open>_get_cid\<close>, the values returned dropped.\<close>

fun get_cid_times :: "nat \<Rightarrow> client \<Rightarrow> client" where
  "get_cid_times 0 s = s"
| "get_cid_times (Suc n) s = get_cid_times n (snd (get_cid s))"

section \<open>The request path: \<open>_write_pdu\<close>\<close>

text \<open>
  \<open>apollo_pb2\<close> is generated protobuf code outside the sources, so the two protobuf
  calls are parameters: \<open>ser t pdu\<close> is \<open>pdu.SerializeToString()\<close> once
  \<open>pdu.transaction_id = t\<close> was assigned, and \<open>parse rdata\<close> is
  \<open>rpdu.ParseFromString(rdata)\<close>, \<open>None\<close> when it raises DecodeError.

  Lines 389--399: both allocators run, then the frame is built.  An OverflowError of
  \<open>to_bytes\<close> leaves \<open>_write_pdu\<close> with both counters already advanced.
\<close>

definition make_msg :: "(int \<Rightarrow> 'p \<Rightarrow> bytes) \<Rightarrow> 'p \<Rightarrow> client \<Rightarrow> (exn + int \<times> bytes) \<times> client" where
  "make_msg ser pdu s =
     (case get_tid s of
        (t, s1) \<Rightarrow>
          (case get_cid s1 of
             (c, s2) \<Rightarrow>
               (case encode c (ser t pdu) of
                  Inl e \<Rightarrow> (Inl e, s2)
                | Inr msg \<Rightarrow> (Inr (c, msg), s2))))"

text \<open>Line 401: \<open>self.writer.write(msg)\<close>.\<close>

definition writer_write :: "bytes \<Rightarrow> client \<Rightarrow> client" where
  "writer_write msg s =
     s\<lparr>writer := (writer s)\<lparr>written := written (writer s) @ [msg]\<rparr>,
       trace := trace s @ [EvWrite msg]\<rparr>"

text \<open>
  Lines 402--404: a new empty queue is created and stored under the cid by a plain
  dict assignment; the result is the reference of the new queue.
\<close>

definition register :: "int \<Rightarrow> client \<Rightarrow> nat \<times> client" where
  "register c s =
     (let q = length (calls s) in
      (q, s\<lparr>message_dict := (message_dict s)(c \<mapsto> q),
            calls := calls s @ [\<lparr>w_cid = c, w_q = [], w_cancel = False, w_done = False\<rparr>],
            trace := trace s @ [EvRegister c q]\<rparr>))"

text \<open>
  Lines 389--404, the part of \<open>_write_pdu\<close> before its only \<open>await\<close>.  It contains
  no suspension point, so the event loop runs it as one step.
\<close>

definition write_pdu_send :: "(int \<Rightarrow> 'p \<Rightarrow> bytes) \<Rightarrow> 'p \<Rightarrow> client \<Rightarrow> (exn + nat) \<times> client" where
  "write_pdu_send ser pdu s =
     (case make_msg ser pdu s of
        (Inl e, s1) \<Rightarrow> (Inl e, s1)
      | (Inr (c, msg), s1) \<Rightarrow>
          (case register c (writer_write msg s1) of (q, s2) \<Rightarrow> (Inr q, s2)))"


text \<open>
  The value \<open>_write_pdu\<close> returns: a pdu parsed from the response, or the empty pdu
  with \<open>error.transport\<close> set.
\<close>

datatype 'r rpdu = Parsed 'r | TransportError string

text \<open>
  Line 407, \<open>await asyncio.wait_for(coro, timeout=60)\<close>, seen when the call is
  resumed: CancelledError when its task was cancelled, the item of its queue when
  one was put, TimeoutError when the 60 seconds passed with the queue still empty.
  The \<open>q.get()\<close> task taking the item and \<open>wait_for\<close> returning it are one step.
\<close>

definition wait_for :: "waiter \<Rightarrow> exn + bytes \<times> waiter" where
  "wait_for w =
     (if w_cancel w then Inl CancelledError
      else case w_q w of
             [] \<Rightarrow> Inl TimeoutError
           | item # items \<Rightarrow> Inr (item, w\<lparr>w_q := items\<rparr>))"

text \<open>Line 412: \<open>del self.message_dict[cid]\<close>.\<close>

definition del_message :: "int \<Rightarrow> client \<Rightarrow> exn + client" where
  "del_message c s =
     (if message_dict s c = None then Inl KeyError
      else Inr (s\<lparr>message_dict := (message_dict s)(c := None)\<rparr>))"

definition returned :: "nat \<Rightarrow> client \<Rightarrow> client" where
  "returned k s = s\<lparr>calls := (calls s)[k := (calls s ! k)\<lparr>w_done := True\<rparr>]\<rparr>"

text \<open>Lines 412--413, reached from both branches of the \<open>try\<close>.\<close>

definition del_and_return :: "'r rpdu \<Rightarrow> nat \<Rightarrow> client \<Rightarrow> (exn + 'r rpdu) \<times> client" where
  "del_and_return rp k s =
     (case del_message (w_cid (calls s ! k)) s of
        Inl e \<Rightarrow> (Inl e, returned k s)
      | Inr s1 \<Rightarrow> (Inr rp, returned k s1))"

text \<open>
  Lines 406--413: the call with reference \<open>k\<close> is resumed.  Only
  \<open>asyncio.TimeoutError\<close> is caught; every other exception leaves \<open>_write_pdu\<close>
  before line 412.  \<open>None\<close>: there is no suspended call \<open>k\<close>.
\<close>

definition write_pdu_await :: "(bytes \<Rightarrow> 'r option) \<Rightarrow> nat \<Rightarrow> client \<Rightarrow> ((exn + 'r rpdu) \<times> client) option" where
  "write_pdu_await parse k s =
     (if length (calls s) \<le> k \<or> w_done (calls s ! k) then None
      else Some
        (case wait_for (calls s ! k) of
           Inl e \<Rightarrow>
             (if e = TimeoutError then del_and_return (TransportError ''timeout'') k s
              else (Inl e, returned k s))
         | Inr (rdata, w) \<Rightarrow>
             (let s1 = s\<lparr>calls := (calls s)[k := w]\<rparr> in
              case parse rdata of
                None \<Rightarrow> (Inl DecodeError, returned k s1)
              | Some r \<Rightarrow> del_and_return (Parsed r) k s1)))"

section \<open>The listener\<close>

text \<open>\<open>q.put_nowait(data)\<close> on a queue of \<open>maxsize = 1\<close>.\<close>

definition put_nowait :: "bytes \<Rightarrow> waiter \<Rightarrow> exn + waiter" where
  "put_nowait item w =
     (if 1 \<le> length (w_q w) then Inl QueueFull else Inr (w\<lparr>w_q := w_q w @ [item]\<rparr>))"

text \<open>
  One iteration of the loop of \<open>_listener\<close> (lines 52--73); the boolean tells whether
  the loop goes on.  \<open>self.loop.is_running()\<close> holds whenever the coroutine runs.  A
  queue object is always true, so \<open>if q\<close> tests whether the dict has the cid.  Both
  \<open>except\<close> clauses leave the loop.
\<close>

definition listener_step :: "client \<Rightarrow> bool \<times> client" where
  "listener_step s =
     (case listener_task s of
        Stopped \<Rightarrow> (False, s)
      | CancelRequested \<Rightarrow> (False, s\<lparr>listener_task := Stopped\<rparr>)
      | Running \<Rightarrow>
          (case read_frame (reader s) of
             (Inl e, rest) \<Rightarrow> (False, s\<lparr>reader := rest, listener_task := Stopped\<rparr>)
           | (Inr (c, data), rest) \<Rightarrow>
               (let s1 = s\<lparr>reader := rest\<rparr> in
                case message_dict s1 c of
                  None \<Rightarrow> (True, s1)
                | Some q \<Rightarrow>
                    (case put_nowait data (calls s1 ! q) of
                       Inl e \<Rightarrow> (False, s1\<lparr>listener_task := Stopped\<rparr>)
                     | Inr w \<Rightarrow> (True, s1\<lparr>calls := (calls s1)[q := w]\<rparr>)))))"

text \<open>The loop, run until it stops; every iteration that goes on consumes input.\<close>

function listener :: "client \<Rightarrow> client" where
  "listener s =
     (if fst (listener_step s) then listener (snd (listener_step s))
      else snd (listener_step s))"
  by pat_completeness auto
termination
  by (relation "measure (\<lambda>s. length (reader s))")
     (auto simp: listener_step_def read_frame_def readexactly_def Let_def put_nowait_def
           split: listener_state.splits prod.splits sum.splits if_splits option.splits)

declare listener.simps [simp del]

section \<open>Teardown\<close>

text \<open>\<open>_cancel_all_tasks\<close> calls \<open>cancel()\<close> on every unfinished task of the loop.\<close>

definition cancel_all_tasks :: "client \<Rightarrow> client" where
  "cancel_all_tasks s =
     s\<lparr>calls := map (\<lambda>w. if w_done w then w else w\<lparr>w_cancel := True\<rparr>) (calls s),
       listener_task := (if listener_task s = Running then CancelRequested else listener_task s)\<rparr>"


text \<open>
  While some code runs the event loop, the loop resumes tasks it owns: a suspended
  call of \<open>_write_pdu\<close>, or the listener for one iteration.  \<open>run_loop\<close> performs the
  given steps and lists what each resumed call gave to its caller; a step for a call
  that is not suspended does nothing.
\<close>

datatype step = Resume nat | Listen

fun run_loop :: "(bytes \<Rightarrow> 'r option) \<Rightarrow> step list \<Rightarrow> client \<Rightarrow> (nat \<times> (exn + 'r rpdu)) list \<times> client" where
  "run_loop parse [] s = ([], s)"
| "run_loop parse (Listen # steps) s = run_loop parse steps (snd (listener_step s))"
| "run_loop parse (Resume k # steps) s =
     (case write_pdu_await parse k s of
        None \<Rightarrow> run_loop parse steps s
      | Some (r, s1) \<Rightarrow> (case run_loop parse steps s1 of (rs, s2) \<Rightarrow> ((k, r) # rs, s2)))"

text \<open>
  \<open>_disconnect\<close> is \<open>scram.disconnect(streamwriter=self.writer, loop=self.loop)\<close>.
  \<open>scram\<close> is another package; it is given the stream writer and the event loop, and
  nothing else of the client.  So what the call does is a parameter with three
  parts: what it does to the writer, which steps of its tasks the loop performs
  while the call runs it, and whether the call closes the loop.
\<close>

record scram_disconnect =
  on_writer :: "stream_writer \<Rightarrow> stream_writer"
  loop_steps :: "step list"
  closes_loop :: bool

definition disconnect :: "scram_disconnect \<Rightarrow> (bytes \<Rightarrow> 'r option) \<Rightarrow> client \<Rightarrow> (nat \<times> (exn + 'r rpdu)) list \<times> client" where
  "disconnect d parse s =
     (case run_loop parse (loop_steps d) (s\<lparr>writer := on_writer d (writer s)\<rparr>) of
        (rs, s1) \<Rightarrow> (rs, s1\<lparr>loop_closed := (loop_closed s1 \<or> closes_loop d)\<rparr>))"

text \<open>
  \<open>cleanup\<close>: the tasks are cancelled, then \<open>_disconnect\<close> runs.  The list says what
  the calls resumed during \<open>_disconnect\<close> gave to their callers.
\<close>

definition cleanup :: "scram_disconnect \<Rightarrow> (bytes \<Rightarrow> 'r option) \<Rightarrow> client \<Rightarrow> (nat \<times> (exn + 'r rpdu)) list \<times> client" where
  "cleanup d parse s = disconnect d parse (cancel_all_tasks s)"

text \<open>
  A dict value is a queue object that exists: every reference in \<open>message_dict\<close>
  denotes a call that was started.  This holds on a fresh client and is kept by
  every step (lemmas \<open>refs_valid_init\<close> to \<open>refs_valid_cleanup\<close>), so the lookup
  \<open>calls s ! q\<close> of the listener is always in range.
\<close>

definition refs_valid :: "client \<Rightarrow> bool" where
  "refs_valid s = (\<forall>c q. message_dict s c = Some q \<longrightarrow> q < length (calls s))"

section \<open>Concurrent sends\<close>

text \<open>
  Several calls of \<open>_write_pdu\<close> started one after the other on the event loop: each
  runs up to its \<open>await\<close> before the next one starts.  The result lists what each
  call got there: the reference of its queue, or the exception raised.
\<close>

fun send_all :: "(int \<Rightarrow> 'p \<Rightarrow> bytes) \<Rightarrow> 'p list \<Rightarrow> client \<Rightarrow> (exn + nat) list \<times> client" where
  "send_all ser [] s = ([], s)"
| "send_all ser (pdu # pdus) s =
     (case write_pdu_send ser pdu s of
        (r, s1) \<Rightarrow> (case send_all ser pdus s1 of (rs, s2) \<Rightarrow> (r # rs, s2)))"

text \<open>
  The calls with the references \<open>ks\<close> resumed in that order, their results dropped; a
  reference that is not a suspended call is skipped.
\<close>

fun await_all :: "(bytes \<Rightarrow> 'r option) \<Rightarrow> nat list \<Rightarrow> client \<Rightarrow> client" where
  "await_all parse [] s = s"
| "await_all parse (k # ks) s =
     await_all parse ks (case write_pdu_await parse k s of None \<Rightarrow> s | Some (r, s1) \<Rightarrow> s1)"

text \<open>
  The input stream that carries the given frames (cid and payload) one after the
  other, each in the layout of the wire: 4-byte length, 2-byte cid, payload.
\<close>

definition wire :: "(int \<times> bytes) list \<Rightarrow> bytes" where
  "wire frames =
     concat (map (\<lambda>f. be_digits 4 (int (length (snd f)) + 2) @ be_digits 2 (fst f) @ snd f) frames)"

section \<open>Big-endian conversion\<close>

lemma from_bytes_snoc: "from_bytes (bs @ [b]) = from_bytes bs * 256 + uint b"
  by (simp add: from_bytes_def)

lemma length_be_digits: "length (be_digits k n) = k"
  by (induction k arbitrary: n) simp_all

lemma from_bytes_be_digits: "from_bytes (be_digits k n) = n mod 256 ^ k"
proof (induction k arbitrary: n)
  case 0
  show ?case by (simp add: from_bytes_def)
next
  case (Suc k)
  have "uint (word_of_int (n mod 256) :: byte) = n mod 256"
    by (simp add: uint_word_of_int)
  then have "from_bytes (be_digits (Suc k) n) = (n div 256 mod 256 ^ k) * 256 + n mod 256"
    by (simp add: from_bytes_snoc Suc.IH)
  also have "\<dots> = n mod 256 ^ Suc k"
    using zmod_zmult2_eq [of "256 ^ k" n 256] by (simp add: mult.commute)
  finally show ?case .
qed

lemma to_bytes_ok:
  assumes "0 \<le> n" and "n < 256 ^ k"
  shows "to_bytes n k = Inr (be_digits k n)"
  using assms by (simp add: to_bytes_def)

lemma from_bytes_to_bytes:
  assumes "0 \<le> n" and "n < 256 ^ k"
  shows "from_bytes (be_digits k n) = n"
  using assms by (simp add: from_bytes_be_digits)

lemma be_digits_2: "be_digits 2 n = [word_of_int (n div 256 mod 256), word_of_int (n mod 256)]"
  by (simp add: eval_nat_numeral)

lemma be_digits_4:
  "be_digits 4 n =
     [word_of_int (n div 256 div 256 div 256 mod 256), word_of_int (n div 256 div 256 mod 256),
      word_of_int (n div 256 mod 256), word_of_int (n mod 256)]"
  by (simp add: eval_nat_numeral)

lemma read_frame_append:
  assumes "length hdr = 4" and "length cb = 2" and "from_bytes hdr = int (length d) + 2"
  shows "read_frame (hdr @ cb @ d @ rest) = (Inr (from_bytes cb, d), rest)"
  using assms by (simp add: read_frame_def readexactly_def)

lemma from_bytes_nonneg: "0 \<le> from_bytes bs"
proof (induction bs rule: rev_induct)
  case Nil
  show ?case by (simp add: from_bytes_def)
next
  case (snoc b bs)
  then show ?case by (simp add: from_bytes_snoc)
qed

lemma encode_ok:
  assumes "0 \<le> c" and "c \<le> 65535" and "length d \<le> 4294967293"
  shows "encode c d = Inr (be_digits 4 (int (length d) + 2) @ be_digits 2 c @ d)"
  using assms by (simp add: encode_def to_bytes_def)

section \<open>Field-wise effect of the steps of \<open>_write_pdu\<close>\<close>

lemma get_tid_fields [simp]:
  "fst (get_tid s) = tid s"
  "tid (snd (get_tid s)) = (if tid s = 4294967295 then 0 else tid s + 1)"
  "cid (snd (get_tid s)) = cid s"
  "message_dict (snd (get_tid s)) = message_dict s"
  "calls (snd (get_tid s)) = calls s"
  "reader (snd (get_tid s)) = reader s"
  "writer (snd (get_tid s)) = writer s"
  "listener_task (snd (get_tid s)) = listener_task s"
  "loop_closed (snd (get_tid s)) = loop_closed s"
  "trace (snd (get_tid s)) = trace s"
  by (simp_all add: get_tid_def)

lemma get_cid_fields [simp]:
  "fst (get_cid s) = cid s"
  "cid (snd (get_cid s)) = (if cid s = 65535 then 0 else cid s + 1)"
  "tid (snd (get_cid s)) = tid s"
  "message_dict (snd (get_cid s)) = message_dict s"
  "calls (snd (get_cid s)) = calls s"
  "reader (snd (get_cid s)) = reader s"
  "writer (snd (get_cid s)) = writer s"
  "listener_task (snd (get_cid s)) = listener_task s"
  "loop_closed (snd (get_cid s)) = loop_closed s"
  "trace (snd (get_cid s)) = trace s"
  by (simp_all add: get_cid_def)

lemma writer_write_fields [simp]:
  "tid (writer_write m s) = tid s"
  "cid (writer_write m s) = cid s"
  "message_dict (writer_write m s) = message_dict s"
  "calls (writer_write m s) = calls s"
  "reader (writer_write m s) = reader s"
  "written (writer (writer_write m s)) = written (writer s) @ [m]"
  "closed (writer (writer_write m s)) = closed (writer s)"
  "listener_task (writer_write m s) = listener_task s"
  "loop_closed (writer_write m s) = loop_closed s"
  "trace (writer_write m s) = trace s @ [EvWrite m]"
  by (simp_all add: writer_write_def)

lemma register_fields [simp]:
  "fst (register c s) = length (calls s)"
  "tid (snd (register c s)) = tid s"
  "cid (snd (register c s)) = cid s"
  "message_dict (snd (register c s)) = (message_dict s)(c \<mapsto> length (calls s))"
  "calls (snd (register c s)) = calls s @ [\<lparr>w_cid = c, w_q = [], w_cancel = False, w_done = False\<rparr>]"
  "reader (snd (register c s)) = reader s"
  "writer (snd (register c s)) = writer s"
  "listener_task (snd (register c s)) = listener_task s"
  "loop_closed (snd (register c s)) = loop_closed s"
  "trace (snd (register c s)) = trace s @ [EvRegister c (length (calls s))]"
  by (simp_all add: register_def Let_def)

lemma returned_fields [simp]:
  "tid (returned k s) = tid s"
  "cid (returned k s) = cid s"
  "message_dict (returned k s) = message_dict s"
  "reader (returned k s) = reader s"
  "writer (returned k s) = writer s"
  "listener_task (returned k s) = listener_task s"
  "loop_closed (returned k s) = loop_closed s"
  "trace (returned k s) = trace s"
  "length (calls (returned k s)) = length (calls s)"
  by (simp_all add: returned_def)

lemma calls_returned_other: "j \<noteq> k \<Longrightarrow> calls (returned k s) ! j = calls s ! j"
  by (simp add: returned_def)

lemma make_msg_ok:
  assumes "0 \<le> cid s" and "cid s \<le> 65535" and "length (ser (tid s) pdu) \<le> 4294967293"
  shows "make_msg ser pdu s =
     (Inr (cid s, be_digits 4 (int (length (ser (tid s) pdu)) + 2) @ be_digits 2 (cid s) @ ser (tid s) pdu),
      snd (get_cid (snd (get_tid s))))"
proof -
  have "make_msg ser pdu s =
      (case encode (cid s) (ser (tid s) pdu) of
         Inl e \<Rightarrow> (Inl e, snd (get_cid (snd (get_tid s))))
       | Inr msg \<Rightarrow> (Inr (cid s, msg), snd (get_cid (snd (get_tid s)))))"
    by (simp add: make_msg_def split: prod.splits) (metis get_tid_fields(1,3) get_cid_fields(1) fst_conv snd_conv)
  then show ?thesis
    using assms by (simp add: encode_ok)
qed

lemma write_pdu_send_ok:
  assumes "0 \<le> cid s" and "cid s \<le> 65535" and "length (ser (tid s) pdu) \<le> 4294967293"
  shows "write_pdu_send ser pdu s =
     (Inr (length (calls s)),
      snd (register (cid s)
        (writer_write
           (be_digits 4 (int (length (ser (tid s) pdu)) + 2) @ be_digits 2 (cid s) @ ser (tid s) pdu)
           (snd (get_cid (snd (get_tid s)))))))"
  using assms by (simp add: write_pdu_send_def make_msg_ok register_def writer_write_def Let_def)

lemma cancel_all_tasks_fields [simp]:
  "tid (cancel_all_tasks s) = tid s"
  "cid (cancel_all_tasks s) = cid s"
  "message_dict (cancel_all_tasks s) = message_dict s"
  "calls (cancel_all_tasks s) = map (\<lambda>w. if w_done w then w else w\<lparr>w_cancel := True\<rparr>) (calls s)"
  "reader (cancel_all_tasks s) = reader s"
  "writer (cancel_all_tasks s) = writer s"
  "loop_closed (cancel_all_tasks s) = loop_closed s"
  "trace (cancel_all_tasks s) = trace s"
  "listener_task (cancel_all_tasks s) = (if listener_task s = Running then CancelRequested else listener_task s)"
  by (simp_all add: cancel_all_tasks_def)

lemma await_cancelled:
  assumes "k < length (calls s)" and "\<not> w_done (calls s ! k)" and "w_cancel (calls s ! k)"
  shows "write_pdu_await parse k s = Some (Inl CancelledError, returned k s)"
  using assms by (simp add: write_pdu_await_def wait_for_def)

lemma await_timeout:
  assumes "k < length (calls s)" and "\<not> w_done (calls s ! k)" and "\<not> w_cancel (calls s ! k)"
      and "w_q (calls s ! k) = []" and "message_dict s (w_cid (calls s ! k)) \<noteq> None"
  shows "map_option fst (write_pdu_await parse k s) = Some (Inr (TransportError ''timeout''))"
  using assms
  by (auto simp: write_pdu_await_def wait_for_def del_and_return_def del_message_def)

lemma await_item:
  assumes "k < length (calls s)" and "\<not> w_done (calls s ! k)" and "\<not> w_cancel (calls s ! k)"
      and "w_q (calls s ! k) = rdata # items" and "message_dict s (w_cid (calls s ! k)) \<noteq> None"
  shows "map_option fst (write_pdu_await parse k s) =
           Some (case parse rdata of None \<Rightarrow> Inl DecodeError | Some r \<Rightarrow> Inr (Parsed r))"
  using assms
  by (auto simp: write_pdu_await_def wait_for_def del_and_return_def del_message_def Let_def
           split: option.splits)

lemma listener_step_read_error:
  assumes "listener_task s = Running" and "fst (read_frame (reader s)) = Inl e"
  shows "listener_step s = (False, s\<lparr>reader := snd (read_frame (reader s)), listener_task := Stopped\<rparr>)"
  using assms by (cases "read_frame (reader s)") (simp add: listener_step_def)

lemma await_timeout_state:
  assumes "k < length (calls s)" and "\<not> w_done (calls s ! k)" and "\<not> w_cancel (calls s ! k)"
      and "w_q (calls s ! k) = []"
      and "message_dict s (w_cid (calls s ! k)) \<noteq> None"
  shows "write_pdu_await parse k s =
           Some (Inr (TransportError ''timeout''),
                 returned k (s\<lparr>message_dict := (message_dict s)(w_cid (calls s ! k) := None)\<rparr>))"
proof -
  have w: "wait_for (calls s ! k) = Inl TimeoutError"
    using assms by (simp add: wait_for_def)
  have d: "del_and_return (TransportError ''timeout'') k s =
      (Inr (TransportError ''timeout''),
       returned k (s\<lparr>message_dict := (message_dict s)(w_cid (calls s ! k) := None)\<rparr>))"
    using assms by (auto simp: del_and_return_def del_message_def)
  show ?thesis
    using assms by (simp add: write_pdu_await_def w d)
qed

lemma await_key_error:
  assumes "k < length (calls s)" and "\<not> w_done (calls s ! k)" and "\<not> w_cancel (calls s ! k)"
      and "w_q (calls s ! k) = []"
      and "message_dict s (w_cid (calls s ! k)) = None"
  shows "write_pdu_await parse k s = Some (Inl KeyError, returned k s)"
  using assms
  by (simp add: write_pdu_await_def wait_for_def del_and_return_def del_message_def)



section \<open>The loop after \<open>_cancel_all_tasks\<close>\<close>





lemma run_loop_Resume:
  assumes "write_pdu_await parse k s = Some (r, s1)"
  shows "fst (run_loop parse (Resume k # steps) s) = (k, r) # fst (run_loop parse steps s1)"
    and "snd (run_loop parse (Resume k # steps) s) = snd (run_loop parse steps s1)"
  using assms by (cases "run_loop parse steps s1"; simp)+



section \<open>References of the dict stay valid\<close>

lemma refs_valid_init: "refs_valid (init input)"
  by (simp add: refs_valid_def init_def)

lemma refs_valid_send:
  assumes "refs_valid s"
  shows "refs_valid (snd (write_pdu_send ser pdu s))"
proof (cases "fst (make_msg ser pdu s)")
  case (Inl e)
  then have "snd (write_pdu_send ser pdu s) = snd (get_cid (snd (get_tid s)))"
    by (cases "make_msg ser pdu s")
       (auto simp: write_pdu_send_def make_msg_def get_tid_def get_cid_def split: sum.splits)
  with assms show ?thesis by (simp add: refs_valid_def)
next
  case (Inr cm)
  obtain c msg where cm: "cm = (c, msg)" by (cases cm)
  obtain s1 where m: "make_msg ser pdu s = (Inr (c, msg), s1)"
    using Inr cm by (cases "make_msg ser pdu s") simp
  then have s1: "s1 = snd (get_cid (snd (get_tid s)))"
    by (auto simp: make_msg_def get_tid_def get_cid_def split: sum.splits)
  have "snd (write_pdu_send ser pdu s) = snd (register c (writer_write msg s1))"
    by (simp add: write_pdu_send_def m split: prod.splits)
  with assms show ?thesis
    by (auto simp: refs_valid_def s1 less_Suc_eq)
qed

lemma refs_valid_listener_step:
  assumes "refs_valid s"
  shows "refs_valid (snd (listener_step s))"
  using assms
  by (auto simp: refs_valid_def listener_step_def put_nowait_def Let_def
      split: listener_state.splits prod.splits sum.splits option.splits if_splits)

lemma refs_valid_await:
  assumes "refs_valid s" and "write_pdu_await parse k s = Some (r, s')"
  shows "refs_valid s'"
  using assms
  by (auto simp: refs_valid_def write_pdu_await_def wait_for_def del_and_return_def del_message_def
      returned_def Let_def split: if_splits list.splits option.splits)

lemma refs_valid_run_loop:
  assumes "refs_valid s"
  shows "refs_valid (snd (run_loop parse steps s))"
  using assms
proof (induction steps arbitrary: s)
  case Nil
  then show ?case by simp
next
  case (Cons step steps)
  show ?case
  proof (cases step)
    case Listen
    with Cons.IH [OF refs_valid_listener_step [OF Cons.prems]] show ?thesis by simp
  next
    case (Resume k)
    show ?thesis
    proof (cases "write_pdu_await parse k s")
      case None
      with Cons.IH [OF Cons.prems] Resume show ?thesis by simp
    next
      case (Some a)
      obtain r s1 where a: "a = (r, s1)" by (cases a)
      have "refs_valid s1"
        using Cons.prems Some [unfolded a] by (rule refs_valid_await)
      from Cons.IH [OF this] show ?thesis
        by (simp add: Resume run_loop_Resume [OF Some [unfolded a]] del: run_loop.simps)
    qed
  qed
qed

lemma refs_valid_cleanup:
  assumes "refs_valid s"
  shows "refs_valid (snd (cleanup d parse s))"
proof -
  let ?c = "(cancel_all_tasks s)\<lparr>writer := on_writer d (writer (cancel_all_tasks s))\<rparr>"
  have "refs_valid ?c"
    using assms by (simp add: refs_valid_def)
  then have "refs_valid (snd (run_loop parse (loop_steps d) ?c))"
    by (rule refs_valid_run_loop)
  then show ?thesis
    by (cases "run_loop parse (loop_steps d) ?c")
       (simp add: cleanup_def disconnect_def refs_valid_def)
qed

section \<open>Successive sends\<close>

lemma init_fields [simp]:
  "tid (init input) = 0"
  "cid (init input) = 0"
  "message_dict (init input) = Map.empty"
  "calls (init input) = []"
  "reader (init input) = input"
  "listener_task (init input) = Running"
  "loop_closed (init input) = False"
  "trace (init input) = []"
  by (simp_all add: init_def)

lemma write_pdu_send_fields:
  assumes "0 \<le> cid s" and "cid s \<le> 65535" and "length (ser (tid s) pdu) \<le> 4294967293"
  shows "fst (write_pdu_send ser pdu s) = Inr (length (calls s))"
    and "cid (snd (write_pdu_send ser pdu s)) = (cid s + 1) mod 65536"
    and "message_dict (snd (write_pdu_send ser pdu s)) = (message_dict s)(cid s \<mapsto> length (calls s))"
    and "calls (snd (write_pdu_send ser pdu s)) =
           calls s @ [\<lparr>w_cid = cid s, w_q = [], w_cancel = False, w_done = False\<rparr>]"
    and "reader (snd (write_pdu_send ser pdu s)) = reader s"
    and "listener_task (snd (write_pdu_send ser pdu s)) = listener_task s"
  using assms by (simp_all add: write_pdu_send_ok)

lemma upt_0_Suc_map: "map f [0..<Suc n] = f 0 # map (\<lambda>j. f (Suc j)) [0..<n]"
proof -
  have "[0..<Suc n] = 0 # map Suc [0..<n]"
    by (simp add: upt_conv_Cons map_Suc_upt del: upt_Suc)
  then show ?thesis
    by (simp add: comp_def del: upt_Suc)
qed

lemma next_cid_shift:
  "((c + 1) mod 65536 + int j) mod 65536 = (c + int (Suc j)) mod (65536::int)"
  by (simp add: mod_simps algebra_simps)

lemma send_all_Cons:
  "fst (send_all ser (p # ps) s) =
     fst (write_pdu_send ser p s) # fst (send_all ser ps (snd (write_pdu_send ser p s)))"
  "snd (send_all ser (p # ps) s) = snd (send_all ser ps (snd (write_pdu_send ser p s)))"
  by (cases "write_pdu_send ser p s"; cases "send_all ser ps (snd (write_pdu_send ser p s))"; simp)+

lemma send_all_results:
  assumes "0 \<le> cid s" and "cid s \<le> 65535"
      and "\<forall>p \<in> set pdus. \<forall>t. length (ser t p) \<le> 4294967293"
  shows "fst (send_all ser pdus s) = map Inr [length (calls s)..<length (calls s) + length pdus]"
  using assms
proof (induction pdus arbitrary: s)
  case Nil
  show ?case by simp
next
  case (Cons p ps)
  let ?s = "snd (write_pdu_send ser p s)"
  have ok: "0 \<le> cid s" "cid s \<le> 65535" "length (ser (tid s) p) \<le> 4294967293"
    using Cons.prems by simp_all
  note f = write_pdu_send_fields [where s = s and ser = ser and pdu = p, OF ok]
  have "fst (send_all ser ps ?s) = map Inr [length (calls ?s)..<length (calls ?s) + length ps]"
    using Cons.prems by (intro Cons.IH) (simp_all add: f)
  then show ?case
    using f(1) by (simp add: send_all_Cons f(4) upt_conv_Cons del: send_all.simps upt_Suc)
qed

lemma send_all_calls:
  assumes "0 \<le> cid s" and "cid s \<le> 65535"
      and "\<forall>p \<in> set pdus. \<forall>t. length (ser t p) \<le> 4294967293"
  shows "calls (snd (send_all ser pdus s)) =
     calls s @ map (\<lambda>j. \<lparr>w_cid = (cid s + int j) mod 65536, w_q = [], w_cancel = False, w_done = False\<rparr>)
                   [0..<length pdus]"
  using assms
proof (induction pdus arbitrary: s)
  case Nil
  show ?case by simp
next
  case (Cons p ps)
  let ?s = "snd (write_pdu_send ser p s)"
  have ok: "0 \<le> cid s" "cid s \<le> 65535" "length (ser (tid s) p) \<le> 4294967293"
    using Cons.prems by simp_all
  note f = write_pdu_send_fields [where s = s and ser = ser and pdu = p, OF ok]
  have "calls (snd (send_all ser ps ?s)) =
     calls ?s @ map (\<lambda>j. \<lparr>w_cid = (cid ?s + int j) mod 65536, w_q = [], w_cancel = False, w_done = False\<rparr>)
                   [0..<length ps]"
    using Cons.prems by (intro Cons.IH) (simp_all add: f)
  moreover have "snd (send_all ser (p # ps) s) = snd (send_all ser ps ?s)"
    by (rule send_all_Cons)
  moreover have "(cid s + 0) mod 65536 = cid s"
    using ok by simp
  ultimately show ?case
    by (simp add: f(2,4) upt_0_Suc_map next_cid_shift del: send_all.simps upt_Suc)
qed

lemma send_all_frame:
  "reader (snd (send_all ser pdus s)) = reader s
   \<and> listener_task (snd (send_all ser pdus s)) = listener_task s"
proof (induction pdus arbitrary: s)
  case Nil
  show ?case by simp
next
  case (Cons p ps)
  have "reader (snd (write_pdu_send ser p s)) = reader s
      \<and> listener_task (snd (write_pdu_send ser p s)) = listener_task s"
    by (simp add: write_pdu_send_def make_msg_def register_def Let_def split: prod.splits sum.splits)
       (metis get_tid_fields(6,8) get_cid_fields(6,8) snd_conv)
  with Cons.IH [of "snd (write_pdu_send ser p s)"] show ?case
    by (simp add: send_all_Cons del: send_all.simps)
qed

lemma cid_offsets_differ:
  assumes "i < j" and "j < i + 65536"
  shows "(c + int i) mod 65536 \<noteq> (c + int j) mod (65536::int)"
proof
  assume "(c + int i) mod 65536 = (c + int j) mod (65536::int)"
  then have "(c + int j) mod 65536 = (c + int i) mod (65536::int)"
    by simp
  then have "(65536::int) dvd (c + int j) - (c + int i)"
    by (simp only: mod_eq_dvd_iff)
  then have "(65536::int) dvd int j - int i"
    by simp
  moreover have "0 < int j - int i"
    using assms by simp
  ultimately have "(65536::int) \<le> int j - int i"
    by (rule zdvd_imp_le)
  with assms show False by simp
qed

lemma send_all_dict_other:
  assumes "0 \<le> cid s" and "cid s \<le> 65535"
      and "\<forall>p \<in> set pdus. \<forall>t. length (ser t p) \<le> 4294967293"
      and "\<forall>j < length pdus. c \<noteq> (cid s + int j) mod 65536"
  shows "message_dict (snd (send_all ser pdus s)) c = message_dict s c"
  using assms
proof (induction pdus arbitrary: s)
  case Nil
  show ?case by simp
next
  case (Cons p ps)
  let ?s = "snd (write_pdu_send ser p s)"
  have ok: "0 \<le> cid s" "cid s \<le> 65535" "length (ser (tid s) p) \<le> 4294967293"
    using Cons.prems by simp_all
  note f = write_pdu_send_fields [where s = s and ser = ser and pdu = p, OF ok]
  have "c \<noteq> (cid s + int 0) mod 65536"
    using Cons.prems(4) by (metis length_Cons zero_less_Suc)
  then have c0: "c \<noteq> cid s"
    using ok by simp
  have rest: "\<forall>j < length ps. c \<noteq> (cid ?s + int j) mod 65536"
  proof (intro allI impI)
    fix j assume "j < length ps"
    then have "c \<noteq> (cid s + int (Suc j)) mod 65536"
      using Cons.prems(4) by (metis length_Cons Suc_less_eq)
    then show "c \<noteq> (cid ?s + int j) mod 65536"
      by (simp add: f(2) next_cid_shift) 
  qed
  have "message_dict (snd (send_all ser ps ?s)) c = message_dict ?s c"
    using Cons.prems(3) rest by (intro Cons.IH) (simp_all add: f)
  then show ?case
    using c0 by (simp add: send_all_Cons f(3) del: send_all.simps)
qed

lemma send_all_dict_new:
  assumes "0 \<le> cid s" and "cid s \<le> 65535"
      and "\<forall>p \<in> set pdus. \<forall>t. length (ser t p) \<le> 4294967293"
      and "length pdus \<le> 65536" and "j < length pdus"
  shows "message_dict (snd (send_all ser pdus s)) ((cid s + int j) mod 65536)
           = Some (length (calls s) + j)"
  using assms
proof (induction pdus arbitrary: s j)
  case Nil
  then show ?case by simp
next
  case (Cons p ps)
  let ?s = "snd (write_pdu_send ser p s)"
  have ok: "0 \<le> cid s" "cid s \<le> 65535" "length (ser (tid s) p) \<le> 4294967293"
    using Cons.prems by simp_all
  note f = write_pdu_send_fields [where s = s and ser = ser and pdu = p, OF ok]
  have range: "0 \<le> cid ?s" "cid ?s \<le> 65535"
    by (simp_all add: f(2))
  have fits: "\<forall>p \<in> set ps. \<forall>t. length (ser t p) \<le> 4294967293"
    using Cons.prems(3) by simp
  show ?case
  proof (cases j)
    case 0
    have "\<forall>j' < length ps. cid s \<noteq> (cid ?s + int j') mod 65536"
    proof (intro allI impI)
      fix j' assume "j' < length ps"
      then have "(cid s + int 0) mod 65536 \<noteq> (cid s + int (Suc j')) mod 65536"
        using Cons.prems(4) by (intro cid_offsets_differ) simp_all
      then show "cid s \<noteq> (cid ?s + int j') mod 65536"
        using ok by (simp add: f(2) next_cid_shift)
    qed
    then have "message_dict (snd (send_all ser ps ?s)) (cid s) = message_dict ?s (cid s)"
      using range fits by (intro send_all_dict_other) simp_all
    then show ?thesis
      using 0 ok by (simp add: send_all_Cons f(3) del: send_all.simps)
  next
    case (Suc j')
    have "message_dict (snd (send_all ser ps ?s)) ((cid ?s + int j') mod 65536)
           = Some (length (calls ?s) + j')"
      using range fits Cons.prems(4,5) Suc by (intro Cons.IH) simp_all
    then show ?thesis
      using Suc by (simp add: send_all_Cons f(2,4) next_cid_shift del: send_all.simps)
  qed
qed

lemma send_all_cid:
  assumes "0 \<le> cid s" and "cid s \<le> 65535"
      and "\<forall>p \<in> set pdus. \<forall>t. length (ser t p) \<le> 4294967293"
  shows "cid (snd (send_all ser pdus s)) = (cid s + int (length pdus)) mod 65536"
  using assms
proof (induction pdus arbitrary: s)
  case Nil
  then show ?case by simp
next
  case (Cons p ps)
  let ?s = "snd (write_pdu_send ser p s)"
  have ok: "0 \<le> cid s" "cid s \<le> 65535" "length (ser (tid s) p) \<le> 4294967293"
    using Cons.prems by simp_all
  note f = write_pdu_send_fields [where s = s and ser = ser and pdu = p, OF ok]
  have "cid (snd (send_all ser ps ?s)) = (cid ?s + int (length ps)) mod 65536"
    using Cons.prems by (intro Cons.IH) (simp_all add: f)
  then show ?case
    by (simp add: send_all_Cons f(2) next_cid_shift del: send_all.simps)
qed

text \<open>
  65536 sends started on a fresh client, none of them resumed: the counter is back
  at 0 and cid 0 still refers to the first call, which is waiting.
\<close>

lemma full_table:
  "cid (snd (send_all (\<lambda>t p. p) (replicate 65536 []) (init []))) = 0"
  "length (calls (snd (send_all (\<lambda>t p. p) (replicate 65536 []) (init [])))) = 65536"
  "message_dict (snd (send_all (\<lambda>t p. p) (replicate 65536 []) (init []))) 0 = Some 0"
  "calls (snd (send_all (\<lambda>t p. p) (replicate 65536 []) (init []))) ! 0
     = \<lparr>w_cid = 0, w_q = [], w_cancel = False, w_done = False\<rparr>"
proof -
  let ?s = "snd (send_all (\<lambda>t p. p) (replicate 65536 []) (init []))"
  have fits: "\<forall>p \<in> set (replicate 65536 ([] :: bytes)). \<forall>t :: int. length ((\<lambda>t p. p) t p) \<le> 4294967293"
    by simp
  have range: "0 \<le> cid (init [])" "cid (init []) \<le> 65535"
    by simp_all
  have "cid ?s = (cid (init []) + int (length (replicate 65536 ([] :: bytes)))) mod 65536"
    using range fits by (rule send_all_cid)
  then show "cid ?s = 0" by simp
  have c: "calls ?s = calls (init []) @ map (\<lambda>j. \<lparr>w_cid = (cid (init []) + int j) mod 65536, w_q = [],
        w_cancel = False, w_done = False\<rparr>) [0..<length (replicate 65536 ([] :: bytes))]"
    using range fits by (rule send_all_calls)
  then show "length (calls ?s) = 65536" by simp
  have "calls ?s ! 0 = \<lparr>w_cid = (cid (init []) + int 0) mod 65536, w_q = [],
        w_cancel = False, w_done = False\<rparr>"
    by (simp only: c init_fields append_Nil) (simp del: upt_Suc)
  then show "calls ?s ! 0 = \<lparr>w_cid = 0, w_q = [], w_cancel = False, w_done = False\<rparr>"
    by simp
  have "message_dict ?s ((cid (init []) + int 0) mod 65536) = Some (length (calls (init [])) + 0)"
    using range fits by (rule send_all_dict_new) simp_all
  then show "message_dict ?s 0 = Some 0" by simp
qed

text \<open>
  65537 sends started on a fresh client, none of them resumed: the last one took
  cid 0 over from the first one.
\<close>

lemma overfull_table:
  "length (calls (snd (write_pdu_send (\<lambda>t p. p) [] (snd (send_all (\<lambda>t p. p) (replicate 65536 []) (init []))))))
     = 65537"
  "message_dict (snd (write_pdu_send (\<lambda>t p. p) [] (snd (send_all (\<lambda>t p. p) (replicate 65536 []) (init []))))) 0
     = Some 65536"
  "calls (snd (write_pdu_send (\<lambda>t p. p) [] (snd (send_all (\<lambda>t p. p) (replicate 65536 []) (init []))))) ! 0
     = \<lparr>w_cid = 0, w_q = [], w_cancel = False, w_done = False\<rparr>"
  "calls (snd (write_pdu_send (\<lambda>t p. p) [] (snd (send_all (\<lambda>t p. p) (replicate 65536 []) (init []))))) ! 65536
     = \<lparr>w_cid = 0, w_q = [], w_cancel = False, w_done = False\<rparr>"
proof -
  let ?s = "snd (send_all (\<lambda>t p. p) (replicate 65536 []) (init []))"
  have send: "write_pdu_send (\<lambda>t p. p) [] ?s =
     (Inr (length (calls ?s)),
      snd (register (cid ?s)
        (writer_write
           (be_digits 4 (int (length ((\<lambda>t p. p) (tid ?s) ([] :: bytes))) + 2) @ be_digits 2 (cid ?s)
              @ (\<lambda>t p. p) (tid ?s) [])
           (snd (get_cid (snd (get_tid ?s)))))))"
    by (rule write_pdu_send_ok) (simp_all add: full_table)
  show "length (calls (snd (write_pdu_send (\<lambda>t p. p) [] ?s))) = 65537"
    by (simp add: send full_table)
  show "message_dict (snd (write_pdu_send (\<lambda>t p. p) [] ?s)) 0 = Some 65536"
    by (simp add: send full_table)
  show "calls (snd (write_pdu_send (\<lambda>t p. p) [] ?s)) ! 0
     = \<lparr>w_cid = 0, w_q = [], w_cancel = False, w_done = False\<rparr>"
    by (simp add: send full_table nth_append)
  show "calls (snd (write_pdu_send (\<lambda>t p. p) [] ?s)) ! 65536
     = \<lparr>w_cid = 0, w_q = [], w_cancel = False, w_done = False\<rparr>"
    using nth_append_length [of "calls ?s"] by (simp add: send full_table)
qed

text \<open>Two concrete runs on a fresh client, used for the closed instances below.\<close>

lemma one_send_state:
  "snd (write_pdu_send (\<lambda>t p. p) [] (init input)) =
     \<lparr>tid = 1, cid = 1, message_dict = [0 \<mapsto> 0],
      calls = [\<lparr>w_cid = 0, w_q = [], w_cancel = False, w_done = False\<rparr>],
      reader = input,
      writer = \<lparr>written = [[0, 0, 0, 2, 0, 0]], closed = False\<rparr>, listener_task = Running,
      loop_closed = False, trace = [EvWrite [0, 0, 0, 2, 0, 0], EvRegister 0 0]\<rparr>"
  by (simp add: write_pdu_send_def make_msg_def get_tid_def get_cid_def encode_def to_bytes_def
      be_digits_2 be_digits_4 writer_write_def register_def init_def)

lemma delivered_state:
  "snd (listener_step (snd (write_pdu_send (\<lambda>t p. p) [] (init [0, 0, 0, 3, 0, 0, 42])))) =
     \<lparr>tid = 1, cid = 1, message_dict = [0 \<mapsto> 0],
      calls = [\<lparr>w_cid = 0, w_q = [[42]], w_cancel = False, w_done = False\<rparr>],
      reader = [],
      writer = \<lparr>written = [[0, 0, 0, 2, 0, 0]], closed = False\<rparr>, listener_task = Running,
      loop_closed = False, trace = [EvWrite [0, 0, 0, 2, 0, 0], EvRegister 0 0]\<rparr>"
  by (simp add: one_send_state listener_step_def read_frame_def readexactly_def from_bytes_def
      put_nowait_def)


section \<open>C8: the allocators\<close>

lemma cid_get_cid:
  assumes "0 \<le> cid s" and "cid s \<le> 65535"
  shows "cid (snd (get_cid s)) = (cid s + 1) mod 65536"
  using assms by (simp add: get_cid_def)

lemma cid_get_cid_times:
  assumes "0 \<le> cid s" and "cid s \<le> 65535"
  shows "cid (get_cid_times n s) = (cid s + int n) mod 65536"
  using assms
proof (induction n arbitrary: s)
  case 0
  then show ?case by simp
next
  case (Suc n)
  let ?s = "snd (get_cid s)"
  have c: "cid ?s = (cid s + 1) mod 65536"
    using Suc.prems by (rule cid_get_cid)
  then have "0 \<le> cid ?s" and "cid ?s \<le> 65535"
    by simp_all
  then have "cid (get_cid_times n ?s) = (cid ?s + int n) mod 65536"
    by (rule Suc.IH)
  also have "\<dots> = (cid s + int (Suc n)) mod 65536"
    by (simp add: c mod_simps algebra_simps)
  finally show ?case by simp
qed

text \<open>
  Claim C8.  \<open>_get_cid\<close> and \<open>_get_tid\<close> each return the current counter and then
  advance it, back to 0 after 65535 and after 4294967295; neither touches the other
  counter (nor any other field).  On a fresh client the first cid is 0, and after
  65536 allocations the next one is 0 again.
\<close>

theorem allocators_wrap:
  "get_cid s = (cid s, s\<lparr>cid := (if cid s = 65535 then 0 else cid s + 1)\<rparr>)
   \<and> get_tid s = (tid s, s\<lparr>tid := (if tid s = 4294967295 then 0 else tid s + 1)\<rparr>)
   \<and> tid (snd (get_cid s)) = tid s
   \<and> cid (snd (get_tid s)) = cid s
   \<and> fst (get_cid (init input)) = 0
   \<and> fst (get_cid (get_cid_times 65536 (init input))) = 0"
proof -
  have "cid (get_cid_times 65536 (init input)) = (cid (init input) + int 65536) mod 65536"
    by (rule cid_get_cid_times) (simp_all add: init_def)
  then have "fst (get_cid (get_cid_times 65536 (init input))) = 0"
    by (simp add: get_cid_def init_def)
  then show ?thesis
    by (simp add: get_cid_def get_tid_def init_def)
qed

section \<open>C7: the frame round trip\<close>

text \<open>
  Claim C7 says that every payload can be framed.  The length field has 4 bytes: for
  a payload of 4294967294 bytes \<open>length.to_bytes(4, byteorder='big')\<close> raises
  OverflowError and no frame is produced.
\<close>

theorem frame_round_trip_counterexample:
  "encode 0 (replicate 4294967294 0) = Inl OverflowError"
  by (simp add: encode_def to_bytes_def)

text \<open>
  Claim C7, amended.  For every cid in \<open>[0, 65535]\<close> and every payload of at most
  4294967293 bytes (so that its length plus 2 fits the 4-byte field; this covers the
  lengths 0, 1 and everything above 65536 up to that bound), the frame is the 4-byte
  big-endian value of \<open>len(payload) + 2\<close>, the 2-byte big-endian cid and the
  payload, \<open>4 + 2 + len(payload)\<close> bytes in all, and the listener's three reads give
  back the cid and the payload and leave what follows the frame in the stream.
\<close>

theorem frame_round_trip:
  assumes "0 \<le> c" and "c \<le> 65535" and "length d \<le> 4294967293"
  shows "encode c d = Inr (be_digits 4 (int (length d) + 2) @ be_digits 2 c @ d)
    \<and> length (be_digits 4 (int (length d) + 2) @ be_digits 2 c @ d) = 4 + 2 + length d
    \<and> from_bytes (be_digits 4 (int (length d) + 2)) = int (length d) + 2
    \<and> from_bytes (be_digits 2 c) = c
    \<and> read_frame (be_digits 4 (int (length d) + 2) @ be_digits 2 c @ d @ rest) = (Inr (c, d), rest)"
proof -
  have len: "from_bytes (be_digits 4 (int (length d) + 2)) = int (length d) + 2"
    using assms(3) by (intro from_bytes_to_bytes) simp_all
  have cb: "from_bytes (be_digits 2 c) = c"
    using assms(1,2) by (intro from_bytes_to_bytes) simp_all
  have enc: "encode c d = Inr (be_digits 4 (int (length d) + 2) @ be_digits 2 c @ d)"
    using assms by (simp add: encode_def to_bytes_def)
  have "read_frame (be_digits 4 (int (length d) + 2) @ be_digits 2 c @ d @ rest)
          = (Inr (from_bytes (be_digits 2 c), d), rest)"
    by (rule read_frame_append) (simp_all add: length_be_digits len)
  with len cb enc show ?thesis
    by (simp add: length_be_digits)
qed

theorem frame_round_trip_witness:
  "(0::int) \<le> 513 \<and> (513::int) \<le> 65535 \<and> length (replicate 65537 (7::byte)) \<le> 4294967293
   \<and> encode 513 (replicate 65537 7) = Inr ([0, 1, 0, 3, 2, 1] @ replicate 65537 7)
   \<and> read_frame ([0, 1, 0, 3, 2, 1] @ replicate 65537 7 @ [9]) = (Inr (513, replicate 65537 7), [9])"
  using frame_round_trip [of 513 "replicate 65537 7" "[9]"]
  by (simp add: be_digits_2 be_digits_4)

section \<open>C10: the length field\<close>

text \<open>
  Claim C10 says that a claimed length above a configured maximum is rejected before
  a buffer of that size is read.  The listener has no maximum: the largest length
  the 4-byte field can carry, 4294967295, is accepted, and the 4294967293 payload
  bytes are read and returned.
\<close>

theorem max_frame_size_counterexample:
  "read_frame ([255, 255, 255, 255, 0, 0] @ replicate 4294967293 0)
     = (Inr (0, replicate 4294967293 0), [])"
  by (simp add: read_frame_def readexactly_def from_bytes_def)

text \<open>
  Claim C10, amended.  The claimed length is read unsigned, so it is never negative.
  Once the six header bytes are there, a claimed length below 2 is rejected before
  any payload byte is read: \<open>readexactly\<close> is called with a negative size and
  raises ValueError, which stops the listener with the input after the header
  untouched.  Every claimed length from 2 on is accepted, whatever its size: exactly
  \<open>length - 2\<close> payload bytes are read, or IncompleteReadError is raised when the
  stream ends before them.
\<close>

theorem length_field_handling:
  assumes "6 \<le> length buf"
  shows "0 \<le> from_bytes (take 4 buf)
    \<and> read_frame buf =
        (if from_bytes (take 4 buf) < 2 then (Inl ValueError, drop 6 buf)
         else if int (length buf) < 4 + from_bytes (take 4 buf) then (Inl IncompleteReadError, [])
         else (Inr (from_bytes (take 2 (drop 4 buf)),
                    take (nat (from_bytes (take 4 buf) - 2)) (drop 6 buf)),
               drop (nat (4 + from_bytes (take 4 buf))) buf))"
proof -
  let ?L = "from_bytes (take 4 buf)"
  have nonneg: "0 \<le> ?L" by (rule from_bytes_nonneg)
  have r1: "readexactly 4 buf = (Inr (take 4 buf), drop 4 buf)"
    using assms by (simp add: readexactly_def)
  have r2: "readexactly 2 (drop 4 buf) = (Inr (take 2 (drop 4 buf)), drop 6 buf)"
    using assms by (simp add: readexactly_def)
  have rf: "read_frame buf =
      (case readexactly (?L - 2) (drop 6 buf) of
         (Inl e, b3) \<Rightarrow> (Inl e, b3)
       | (Inr data, b3) \<Rightarrow> (Inr (from_bytes (take 2 (drop 4 buf)), data), b3))"
    by (simp add: read_frame_def r1 r2)
  have small: "read_frame buf = (Inl ValueError, drop 6 buf)" if "?L < 2"
    using that by (simp add: rf readexactly_def)
  have short: "read_frame buf = (Inl IncompleteReadError, [])"
    if "2 \<le> ?L" and "int (length buf) < 4 + ?L"
    using that assms by (simp add: rf readexactly_def)
  have full: "read_frame buf =
      (Inr (from_bytes (take 2 (drop 4 buf)), take (nat (?L - 2)) (drop 6 buf)),
       drop (nat (4 + ?L)) buf)"
    if "2 \<le> ?L" and "\<not> int (length buf) < 4 + ?L"
  proof -
    have "\<not> length buf - 6 < nat (?L - 2)"
      using that assms by linarith
    moreover have "nat (?L - 2) + 6 = nat (4 + ?L)"
      using that by linarith
    ultimately show ?thesis
      using that by (simp add: rf readexactly_def)
  qed
  from nonneg small short full show ?thesis by auto
qed

theorem length_field_handling_witness:
  "6 \<le> length [0, 0, 0, 1, 0, 7, 42 :: byte]
   \<and> read_frame [0, 0, 0, 1, 0, 7, 42] = (Inl ValueError, [42])
   \<and> 6 \<le> length [0, 1, 0, 0, 0, 7, 42 :: byte]
   \<and> read_frame [0, 1, 0, 0, 0, 7, 42] = (Inl IncompleteReadError, [])
   \<and> 6 \<le> length [0, 0, 0, 3, 0, 7, 42, 43 :: byte]
   \<and> read_frame [0, 0, 0, 3, 0, 7, 42, 43] = (Inr (7, [42]), [43])"
  using length_field_handling [of "[0, 0, 0, 1, 0, 7, 42]"]
        length_field_handling [of "[0, 1, 0, 0, 0, 7, 42]"]
        length_field_handling [of "[0, 0, 0, 3, 0, 7, 42, 43]"]
  by (simp add: from_bytes_def)

section \<open>C9: a response without a waiter\<close>

text \<open>
  Claim C9.  When the listener reads a frame whose cid has no entry in
  \<open>message_dict\<close>, the iteration only consumes the frame from the stream and the
  loop goes on: the dict, every queue and every suspended call are as before.
\<close>

theorem unmatched_response_dropped:
  assumes "listener_task s = Running"
      and "read_frame (reader s) = (Inr (c, data), rest)"
      and "message_dict s c = None"
  shows "listener_step s = (True, s\<lparr>reader := rest\<rparr>)"
  using assms by (simp add: listener_step_def)

theorem unmatched_response_dropped_witness:
  "listener_task (snd (write_pdu_send (\<lambda>t p. p) [] (init [0, 0, 0, 3, 0, 7, 42]))) = Running
   \<and> read_frame (reader (snd (write_pdu_send (\<lambda>t p. p) [] (init [0, 0, 0, 3, 0, 7, 42]))))
       = (Inr (7, [42]), [])
   \<and> message_dict (snd (write_pdu_send (\<lambda>t p. p) [] (init [0, 0, 0, 3, 0, 7, 42]))) 7 = None
   \<and> message_dict (snd (write_pdu_send (\<lambda>t p. p) [] (init [0, 0, 0, 3, 0, 7, 42]))) 0 = Some 0
   \<and> listener_step (snd (write_pdu_send (\<lambda>t p. p) [] (init [0, 0, 0, 3, 0, 7, 42])))
       = (True, (snd (write_pdu_send (\<lambda>t p. p) [] (init [0, 0, 0, 3, 0, 7, 42])))\<lparr>reader := []\<rparr>)"
proof -
  let ?s = "snd (write_pdu_send (\<lambda>t p. p) [] (init [0, 0, 0, 3, 0, 7, 42]))"
  have s: "?s = \<lparr>tid = 1, cid = 1, message_dict = [0 \<mapsto> 0],
      calls = [\<lparr>w_cid = 0, w_q = [], w_cancel = False, w_done = False\<rparr>],
      reader = [0, 0, 0, 3, 0, 7, 42],
      writer = \<lparr>written = [[0, 0, 0, 2, 0, 0]], closed = False\<rparr>, listener_task = Running,
      loop_closed = False, trace = [EvWrite [0, 0, 0, 2, 0, 0], EvRegister 0 0]\<rparr>"
    by (simp add: write_pdu_send_def make_msg_def get_tid_def get_cid_def encode_def to_bytes_def
        be_digits_2 be_digits_4 writer_write_def register_def init_def)
  have 1: "listener_task ?s = Running" by (simp add: s)
  have 2: "read_frame (reader ?s) = (Inr (7, [42]), [])"
    by (simp add: s read_frame_def readexactly_def from_bytes_def)
  have 3: "message_dict ?s 7 = None" by (simp add: s)
  have 4: "message_dict ?s 0 = Some 0" by (simp add: s)
  from unmatched_response_dropped [OF 1 2 3] 1 2 3 4 show ?thesis by simp
qed

section \<open>C2: registering a cid that is still in use\<close>

text \<open>
  Claim C2 says that registering a cid with a live waiter fails with CollisionError.
  Below, 65536 sends are waiting on a fresh client, the first of them under cid 0.
  The next send is given cid 0 again: it is not rejected, and the dict entry of
  cid 0 now refers to the queue of the new call.
\<close>

theorem collision_counterexample:
  "message_dict (snd (send_all (\<lambda>t p. p) (replicate 65536 []) (init []))) 0 = Some 0
   \<and> w_done (calls (snd (send_all (\<lambda>t p. p) (replicate 65536 []) (init []))) ! 0) = False
   \<and> fst (write_pdu_send (\<lambda>t p. p) [] (snd (send_all (\<lambda>t p. p) (replicate 65536 []) (init []))))
       = Inr 65536
   \<and> message_dict
        (snd (write_pdu_send (\<lambda>t p. p) [] (snd (send_all (\<lambda>t p. p) (replicate 65536 []) (init []))))) 0
       = Some 65536"
proof -
  let ?s = "snd (send_all (\<lambda>t p. p) (replicate 65536 []) (init []))"
  have "write_pdu_send (\<lambda>t p. p) [] ?s =
     (Inr (length (calls ?s)),
      snd (register (cid ?s)
        (writer_write
           (be_digits 4 (int (length ((\<lambda>t p. p) (tid ?s) ([] :: bytes))) + 2) @ be_digits 2 (cid ?s)
              @ (\<lambda>t p. p) (tid ?s) [])
           (snd (get_cid (snd (get_tid ?s)))))))"
    by (rule write_pdu_send_ok) (simp_all add: full_table)
  then show ?thesis
    by (simp add: full_table)
qed

text \<open>
  Claim C2, amended.  Registration never fails and detects no collision: line 403 is
  a plain dict assignment.  When the allocated cid still has an entry, the send goes
  through, the entry is replaced by the new call's queue, and the earlier call stays
  suspended, unchanged, with a queue the dict no longer refers to.
\<close>

theorem registration_replaces_live_waiter:
  assumes "0 \<le> cid s" and "cid s \<le> 65535" and "length (ser (tid s) pdu) \<le> 4294967293"
      and "message_dict s (cid s) = Some q" and "q < length (calls s)"
  shows "fst (write_pdu_send ser pdu s) = Inr (length (calls s))
    \<and> message_dict (snd (write_pdu_send ser pdu s)) (cid s) = Some (length (calls s))
    \<and> length (calls s) \<noteq> q
    \<and> calls (snd (write_pdu_send ser pdu s)) ! q = calls s ! q"
  using assms by (simp add: write_pdu_send_ok nth_append)

theorem registration_replaces_live_waiter_witness:
  "message_dict (snd (send_all (\<lambda>t p. p) (replicate 65536 []) (init []))) 0 = Some 0
   \<and> fst (write_pdu_send (\<lambda>t p. p) [7] (snd (send_all (\<lambda>t p. p) (replicate 65536 []) (init []))))
       = Inr 65536
   \<and> message_dict
        (snd (write_pdu_send (\<lambda>t p. p) [7] (snd (send_all (\<lambda>t p. p) (replicate 65536 []) (init []))))) 0
       = Some 65536
   \<and> calls
        (snd (write_pdu_send (\<lambda>t p. p) [7] (snd (send_all (\<lambda>t p. p) (replicate 65536 []) (init []))))) ! 0
       = \<lparr>w_cid = 0, w_q = [], w_cancel = False, w_done = False\<rparr>"
  using registration_replaces_live_waiter [of
      "snd (send_all (\<lambda>t p. p) (replicate 65536 []) (init []))" "\<lambda>t p. p" "[7]" 0]
  by (simp add: full_table)

section \<open>C6: the order of the steps of a send\<close>

text \<open>
  Claim C6 says that the waiter is registered before the frame is written.  The log
  of a send on a fresh client shows the two effects in the order in which they
  happen: the \<open>write\<close> call with the frame comes first, the dict assignment of cid 0
  second.
\<close>

theorem write_before_register_counterexample:
  "trace (snd (write_pdu_send (\<lambda>t p. p) [] (init [])))
     = [EvWrite [0, 0, 0, 2, 0, 0], EvRegister 0 0]
   \<and> trace (snd (write_pdu_send (\<lambda>t p. p) [] (init [])))
     \<noteq> [EvRegister 0 0, EvWrite [0, 0, 0, 2, 0, 0]]"
  by (simp add: one_send_state)

text \<open>
  Claim C6, amended.  A send allocates the cid, then writes the frame to the stream
  writer, and only then registers its queue under the cid: the send adds to the log
  the \<open>write\<close> call of the frame followed by the dict assignment, and nothing else.
  No suspension point lies between the two, so when the send first suspends the
  frame is written, the cid refers to the new call and its queue is empty.
\<close>

theorem write_then_register:
  assumes "make_msg ser pdu s = (Inr (c, msg), s1)"
  shows "c = cid s
    \<and> fst (write_pdu_send ser pdu s) = Inr (length (calls s))
    \<and> trace (snd (write_pdu_send ser pdu s))
        = trace s @ [EvWrite msg, EvRegister c (length (calls s))]
    \<and> written (writer (snd (write_pdu_send ser pdu s))) = written (writer s) @ [msg]
    \<and> message_dict (snd (write_pdu_send ser pdu s)) c = Some (length (calls s))
    \<and> w_q (calls (snd (write_pdu_send ser pdu s)) ! length (calls s)) = []"
proof -
  from assms have c: "c = cid s" and s1: "s1 = snd (get_cid (snd (get_tid s)))"
    by (auto simp: make_msg_def split: prod.splits sum.splits)
       (metis get_tid_fields(1,3) get_cid_fields(1) fst_conv snd_conv)+
  have send: "write_pdu_send ser pdu s = (Inr (length (calls s)), snd (register c (writer_write msg s1)))"
    using assms by (simp add: write_pdu_send_def s1 split: prod.splits) (simp add: register_def Let_def)
  show ?thesis
    by (simp add: c send) (simp add: s1)
qed

theorem write_then_register_witness:
  "make_msg (\<lambda>t p. p) [] (init [])
     = (Inr (0, [0, 0, 0, 2, 0, 0]), snd (make_msg (\<lambda>t p. p) [] (init [])))
   \<and> trace (snd (write_pdu_send (\<lambda>t p. p) [] (init [])))
       = [EvWrite [0, 0, 0, 2, 0, 0], EvRegister 0 0]
   \<and> written (writer (snd (write_pdu_send (\<lambda>t p. p) [] (init [])))) = [[0, 0, 0, 2, 0, 0]]
   \<and> message_dict (snd (write_pdu_send (\<lambda>t p. p) [] (init []))) 0 = Some 0"
proof -
  have m: "make_msg (\<lambda>t p. p) [] (init [])
     = (Inr (0, [0, 0, 0, 2, 0, 0]), snd (make_msg (\<lambda>t p. p) [] (init [])))"
    by (simp add: make_msg_def get_tid_def get_cid_def encode_def to_bytes_def
        be_digits_2 be_digits_4 init_def)
  from write_then_register [OF m] m show ?thesis
    by (simp add: init_def)
qed

section \<open>C4: timeout\<close>

text \<open>
  Claim C4 says that every send without a response ends with the Timeout result.
  Below, 65537 sends are waiting on a fresh client and none gets a response; the
  first and the last of them hold cid 0.  The first one times out, returns the
  \<open>timeout\<close> pdu and deletes cid 0.  When the last one times out, line 412
  finds no cid 0 in the dict and the call raises KeyError.
\<close>

theorem timeout_key_error_counterexample:
  "w_q (calls (snd (write_pdu_send (\<lambda>t p. p) []
        (snd (send_all (\<lambda>t p. p) (replicate 65536 []) (init []))))) ! 65536) = []
   \<and> map_option fst
        (write_pdu_await Some 0
           (snd (write_pdu_send (\<lambda>t p. p) [] (snd (send_all (\<lambda>t p. p) (replicate 65536 []) (init []))))))
       = Some (Inr (TransportError ''timeout''))
   \<and> map_option fst
        (write_pdu_await Some 65536
           (await_all Some [0]
              (snd (write_pdu_send (\<lambda>t p. p) [] (snd (send_all (\<lambda>t p. p) (replicate 65536 []) (init [])))))))
       = Some (Inl KeyError)"
proof -
  let ?s = "snd (write_pdu_send (\<lambda>t p. p) [] (snd (send_all (\<lambda>t p. p) (replicate 65536 []) (init []))))"
  let ?t = "returned 0 (?s\<lparr>message_dict := (message_dict ?s)(0 := None)\<rparr>)"
  have "write_pdu_await Some 0 ?s = Some (Inr (TransportError ''timeout''),
      returned 0 (?s\<lparr>message_dict := (message_dict ?s)(w_cid (calls ?s ! 0) := None)\<rparr>))"
    by (rule await_timeout_state) (simp_all add: overfull_table)
  then have first: "write_pdu_await Some 0 ?s = Some (Inr (TransportError ''timeout''), ?t)"
    by (simp add: overfull_table)
  then have run: "await_all Some [0] ?s = ?t"
    by simp
  have later: "calls ?t ! 65536 = \<lparr>w_cid = 0, w_q = [], w_cancel = False, w_done = False\<rparr>"
    by (simp add: calls_returned_other overfull_table)
  have "write_pdu_await Some 65536 ?t = Some (Inl KeyError, returned 65536 ?t)"
    by (rule await_key_error) (simp_all add: later overfull_table)
  with first show ?thesis
    by (simp only: run) (simp add: overfull_table)
qed

text \<open>
  Claim C4, amended.  A suspended send that is resumed with its queue still empty (no
  response arrived within the 60 seconds), with its task not cancelled and its cid
  still in the dict, returns the pdu whose \<open>error.transport\<close> is \<open>timeout\<close>, and
  after the return the dict has no entry for its cid.
\<close>

theorem timeout_result_and_removal:
  assumes "k < length (calls s)" and "\<not> w_done (calls s ! k)" and "\<not> w_cancel (calls s ! k)"
      and "w_q (calls s ! k) = []"
      and "message_dict s (w_cid (calls s ! k)) \<noteq> None"
  shows "write_pdu_await parse k s =
           Some (Inr (TransportError ''timeout''),
                 returned k (s\<lparr>message_dict := (message_dict s)(w_cid (calls s ! k) := None)\<rparr>))
    \<and> message_dict (snd (the (write_pdu_await parse k s))) (w_cid (calls s ! k)) = None"
  using await_timeout_state [OF assms, of parse] by simp

theorem timeout_result_and_removal_witness:
  "message_dict (snd (write_pdu_send (\<lambda>t p. p) [] (init []))) 0 = Some 0
   \<and> map_option fst (write_pdu_await Some 0 (snd (write_pdu_send (\<lambda>t p. p) [] (init []))))
       = Some (Inr (TransportError ''timeout''))
   \<and> message_dict (snd (the (write_pdu_await Some 0 (snd (write_pdu_send (\<lambda>t p. p) [] (init [])))))) 0
       = None"
proof -
  let ?s = "snd (write_pdu_send (\<lambda>t p. p) [] (init []))"
  have h: "0 < length (calls ?s)" "\<not> w_done (calls ?s ! 0)" "\<not> w_cancel (calls ?s ! 0)"
    "w_q (calls ?s ! 0) = []" "message_dict ?s (w_cid (calls ?s ! 0)) \<noteq> None"
    by (simp_all add: one_send_state)
  have c: "w_cid (calls ?s ! 0) = 0" "message_dict ?s 0 = Some 0"
    by (simp_all add: one_send_state)
  from timeout_result_and_removal [OF h, of Some] c show ?thesis
    by simp
qed

section \<open>C5: what a send returns\<close>

text \<open>
  Claim C5 says that a send never lets an exception through and returns a
  ConnectionLost result when the connection fails while it waits.  Below, a send is
  waiting on a fresh client when the peer closes the connection: the listener's
  read raises IncompleteReadError and the listener stops; the send then returns the
  \<open>timeout\<close> pdu.  And when the tasks are cancelled instead, the send lets
  CancelledError through.
\<close>

theorem connection_lost_counterexample:
  "listener_step (snd (write_pdu_send (\<lambda>t p. p) [] (init [])))
     = (False, (snd (write_pdu_send (\<lambda>t p. p) [] (init [])))\<lparr>listener_task := Stopped\<rparr>)
   \<and> map_option fst
        (write_pdu_await Some 0 (snd (listener_step (snd (write_pdu_send (\<lambda>t p. p) [] (init []))))))
       = Some (Inr (TransportError ''timeout''))
   \<and> map_option fst
        (write_pdu_await Some 0 (cancel_all_tasks (snd (write_pdu_send (\<lambda>t p. p) [] (init [])))))
       = Some (Inl CancelledError)"
proof -
  let ?s = "snd (write_pdu_send (\<lambda>t p. p) [] (init []))"
  have l: "listener_step ?s = (False, ?s\<lparr>listener_task := Stopped\<rparr>)"
    by (simp add: one_send_state listener_step_def read_frame_def readexactly_def)
  have t: "map_option fst (write_pdu_await Some 0 (?s\<lparr>listener_task := Stopped\<rparr>))
      = Some (Inr (TransportError ''timeout''))"
    by (rule await_timeout) (simp_all add: one_send_state)
  have c: "map_option fst (write_pdu_await Some 0 (cancel_all_tasks ?s)) = Some (Inl CancelledError)"
    by (subst await_cancelled) (simp_all add: one_send_state)
  from l t c show ?thesis by simp
qed

text \<open>
  Claim C5, amended.  A suspended send whose task is not cancelled, whose cid is
  still in the dict and whose response (if one arrived) parses returns a typed
  result covering success and timeout: the parsed response when one was delivered,
  the \<open>timeout\<close> pdu when none was.  When the connection fails while the call is
  waiting (the listener's read raises and the listener stops) the call returns the
  \<open>timeout\<close> pdu: there is no ConnectionLost result.  A cancelled call lets
  CancelledError through to its caller.
\<close>

theorem send_result_typed:
  assumes "k < length (calls s)" and "\<not> w_done (calls s ! k)"
  shows "(\<not> w_cancel (calls s ! k) \<and> message_dict s (w_cid (calls s ! k)) \<noteq> None
            \<and> (\<forall>d \<in> set (w_q (calls s ! k)). parse d \<noteq> None) \<longrightarrow>
          map_option fst (write_pdu_await parse k s) =
            Some (case w_q (calls s ! k) of
                    [] \<Rightarrow> Inr (TransportError ''timeout'')
                  | rdata # items \<Rightarrow> Inr (Parsed (the (parse rdata)))))
    \<and> (\<not> w_cancel (calls s ! k) \<and> message_dict s (w_cid (calls s ! k)) \<noteq> None
            \<and> w_q (calls s ! k) = []
            \<and> listener_task s = Running \<and> fst (read_frame (reader s)) = Inl e \<longrightarrow>
          fst (listener_step s) = False
          \<and> listener_task (snd (listener_step s)) = Stopped
          \<and> map_option fst (write_pdu_await parse k (snd (listener_step s))) =
              Some (Inr (TransportError ''timeout'')))
    \<and> (w_cancel (calls s ! k) \<longrightarrow>
          map_option fst (write_pdu_await parse k s) = Some (Inl CancelledError))"
proof (intro conjI impI)
  assume h: "\<not> w_cancel (calls s ! k) \<and> message_dict s (w_cid (calls s ! k)) \<noteq> None
            \<and> (\<forall>d \<in> set (w_q (calls s ! k)). parse d \<noteq> None)"
  show "map_option fst (write_pdu_await parse k s) =
            Some (case w_q (calls s ! k) of
                    [] \<Rightarrow> Inr (TransportError ''timeout'')
                  | rdata # items \<Rightarrow> Inr (Parsed (the (parse rdata))))"
  proof (cases "w_q (calls s ! k)")
    case Nil
    with assms h show ?thesis by (simp add: await_timeout)
  next
    case (Cons rdata items)
    with h have "parse rdata \<noteq> None" by simp
    with assms h Cons show ?thesis by (auto simp: await_item)
  qed
next
  assume h: "\<not> w_cancel (calls s ! k) \<and> message_dict s (w_cid (calls s ! k)) \<noteq> None
            \<and> w_q (calls s ! k) = []
            \<and> listener_task s = Running \<and> fst (read_frame (reader s)) = Inl e"
  then have l: "listener_step s =
      (False, s\<lparr>reader := snd (read_frame (reader s)), listener_task := Stopped\<rparr>)"
    by (simp add: listener_step_read_error)
  show "fst (listener_step s) = False" by (simp add: l)
  show "listener_task (snd (listener_step s)) = Stopped" by (simp add: l)
  show "map_option fst (write_pdu_await parse k (snd (listener_step s))) =
              Some (Inr (TransportError ''timeout''))"
    unfolding l using assms h by (intro await_timeout) simp_all
next
  assume "w_cancel (calls s ! k)"
  with assms show "map_option fst (write_pdu_await parse k s) = Some (Inl CancelledError)"
    by (simp add: await_cancelled)
qed

theorem send_result_typed_witness:
  "map_option fst
     (write_pdu_await Some 0
        (snd (listener_step (snd (write_pdu_send (\<lambda>t p. p) [] (init [0, 0, 0, 3, 0, 0, 42]))))))
     = Some (Inr (Parsed [42]))
   \<and> fst (listener_step (snd (write_pdu_send (\<lambda>t p. p) [] (init [0, 0, 0])))) = False
   \<and> map_option fst
       (write_pdu_await Some 0 (snd (listener_step (snd (write_pdu_send (\<lambda>t p. p) [] (init [0, 0, 0]))))))
     = Some (Inr (TransportError ''timeout''))
   \<and> map_option fst
       (write_pdu_await Some 0 (cancel_all_tasks (snd (write_pdu_send (\<lambda>t p. p) [] (init [0, 0, 0])))))
     = Some (Inl CancelledError)"
proof -
  let ?d = "snd (listener_step (snd (write_pdu_send (\<lambda>t p. p) [] (init [0, 0, 0, 3, 0, 0, 42]))))"
  let ?s = "snd (write_pdu_send (\<lambda>t p. p) [] (init [0, 0, 0]))"
  have r: "fst (read_frame (reader ?s)) = Inl IncompleteReadError"
    by (simp add: one_send_state read_frame_def readexactly_def)
  have 1: "map_option fst (write_pdu_await Some 0 ?d) = Some (Inr (Parsed [42]))"
    using send_result_typed [of 0 ?d Some] by (simp add: delivered_state)
  have 2: "fst (listener_step ?s) = False
      \<and> map_option fst (write_pdu_await Some 0 (snd (listener_step ?s)))
          = Some (Inr (TransportError ''timeout''))"
    using send_result_typed [of 0 ?s Some IncompleteReadError] r by (simp add: one_send_state)
  have 3: "map_option fst (write_pdu_await Some 0 (cancel_all_tasks ?s)) = Some (Inl CancelledError)"
    using send_result_typed [of 0 "cancel_all_tasks ?s" Some] by (simp add: one_send_state)
  from 1 2 3 show ?thesis by simp
qed

section \<open>C3: teardown\<close>




section \<open>C1: responses are matched by cid\<close>

subsection \<open>The listener on a sequence of frames\<close>

lemma wire_simps [simp]:
  "wire [] = []"
  "wire (f # fs) = be_digits 4 (int (length (snd f)) + 2) @ be_digits 2 (fst f) @ snd f @ wire fs"
  by (simp_all add: wire_def)

lemma read_frame_wire:
  assumes "0 \<le> c" and "c \<le> 65535" and "length d \<le> 4294967293"
  shows "read_frame (be_digits 4 (int (length d) + 2) @ be_digits 2 c @ d @ rest) = (Inr (c, d), rest)"
proof -
  have "from_bytes (be_digits 4 (int (length d) + 2)) = int (length d) + 2"
    using assms(3) by (intro from_bytes_to_bytes) simp_all
  moreover have "from_bytes (be_digits 2 c) = c"
    using assms(1,2) by (intro from_bytes_to_bytes) simp_all
  ultimately show ?thesis
    using read_frame_append [of "be_digits 4 (int (length d) + 2)" "be_digits 2 c" d rest]
    by (simp add: length_be_digits)
qed

lemma listener_step_deliver:
  assumes "listener_task s = Running"
      and "reader s = wire (f # fs)"
      and "0 \<le> fst f" and "fst f \<le> 65535" and "length (snd f) \<le> 4294967293"
      and "message_dict s (fst f) = Some q" and "w_q (calls s ! q) = []"
  shows "listener_step s =
     (True, s\<lparr>reader := wire fs, calls := (calls s)[q := (calls s ! q)\<lparr>w_q := [snd f]\<rparr>]\<rparr>)"
proof -
  have "read_frame (reader s) = (Inr (fst f, snd f), wire fs)"
    using assms(3-5) by (simp add: assms(2) read_frame_wire)
  then show ?thesis
    using assms(1,6,7) by (cases f) (simp add: listener_step_def put_nowait_def)
qed

lemma listener_at_end:
  assumes "listener_task s = Running" and "reader s = []"
  shows "listener s = s\<lparr>reader := [], listener_task := Stopped\<rparr>"
proof -
  have "listener_step s = (False, s\<lparr>reader := [], listener_task := Stopped\<rparr>)"
    using assms by (simp add: listener_step_def read_frame_def readexactly_def)
  then show ?thesis
    by (subst listener.simps) simp
qed

text \<open>
  When every frame of the stream has a waiter of its own with an empty queue, the
  listener consumes the whole stream and appends each payload to the queue its cid
  refers to; the dict is not changed.
\<close>

lemma listener_run:
  assumes "listener_task s = Running"
      and "reader s = wire frames"
      and "\<forall>f \<in> set frames. 0 \<le> fst f \<and> fst f \<le> 65535 \<and> length (snd f) \<le> 4294967293"
      and "distinct (map (\<lambda>f. message_dict s (fst f)) frames)"
      and "\<forall>f \<in> set frames. \<exists>q. message_dict s (fst f) = Some q \<and> q < length (calls s)
             \<and> w_q (calls s ! q) = []"
  shows "message_dict (listener s) = message_dict s
    \<and> length (calls (listener s)) = length (calls s)
    \<and> (\<forall>q < length (calls s). calls (listener s) ! q =
          (calls s ! q)\<lparr>w_q := w_q (calls s ! q)
             @ map snd (filter (\<lambda>f. message_dict s (fst f) = Some q) frames)\<rparr>)"
  using assms
proof (induction frames arbitrary: s)
  case Nil
  then show ?case by (simp add: listener_at_end)
next
  case (Cons f fs)
  from Cons.prems(5) obtain q where q: "message_dict s (fst f) = Some q" "q < length (calls s)"
    "w_q (calls s ! q) = []"
    by auto
  let ?s = "s\<lparr>reader := wire fs, calls := (calls s)[q := (calls s ! q)\<lparr>w_q := [snd f]\<rparr>]\<rparr>"
  have step: "listener_step s = (True, ?s)"
    using Cons.prems(1,2,3) q(1,3) by (intro listener_step_deliver) simp_all
  have run: "listener s = listener ?s"
    by (subst listener.simps) (simp add: step)
  have fresh: "message_dict s (fst g) \<noteq> Some q" if "g \<in> set fs" for g
    using Cons.prems(4) q(1) that by (auto simp: image_iff)
  have targets: "\<forall>g \<in> set fs. \<exists>q'. message_dict ?s (fst g) = Some q' \<and> q' < length (calls ?s)
             \<and> w_q (calls ?s ! q') = []"
  proof
    fix g assume g: "g \<in> set fs"
    with Cons.prems(5) obtain q' where q': "message_dict s (fst g) = Some q'" "q' < length (calls s)"
      "w_q (calls s ! q') = []"
      by auto
    with fresh [OF g] have "q' \<noteq> q" by auto
    with q' show "\<exists>q'. message_dict ?s (fst g) = Some q' \<and> q' < length (calls ?s)
             \<and> w_q (calls ?s ! q') = []"
      by simp
  qed
  have ih: "message_dict (listener ?s) = message_dict ?s
    \<and> length (calls (listener ?s)) = length (calls ?s)
    \<and> (\<forall>q' < length (calls ?s). calls (listener ?s) ! q' =
          (calls ?s ! q')\<lparr>w_q := w_q (calls ?s ! q')
             @ map snd (filter (\<lambda>g. message_dict ?s (fst g) = Some q') fs)\<rparr>)"
    using Cons.prems(1,3,4) targets by (intro Cons.IH) simp_all
  have none: "filter (\<lambda>g. message_dict s (fst g) = Some q) fs = []"
    using fresh by (simp add: filter_empty_conv)
  have "calls (listener ?s) ! q' =
          (calls s ! q')\<lparr>w_q := w_q (calls s ! q')
             @ map snd (filter (\<lambda>g. message_dict s (fst g) = Some q') (f # fs))\<rparr>"
    if "q' < length (calls s)" for q'
  proof (cases "q' = q")
    case True
    with ih q none show ?thesis by simp
  next
    case False
    with ih q that show ?thesis by simp
  qed
  with ih run show ?case by simp
qed

subsection \<open>Resuming other calls\<close>

lemma await_frame:
  assumes "write_pdu_await parse k s = Some (r, s')"
  shows "length (calls s') = length (calls s)"
    and "w_cid (calls s' ! j) = w_cid (calls s ! j)"
    and "j \<noteq> k \<Longrightarrow> calls s' ! j = calls s ! j"
    and "c \<noteq> w_cid (calls s ! k) \<Longrightarrow> message_dict s' c = message_dict s c"
proof -
  from assms have k: "k < length (calls s)"
    by (simp add: write_pdu_await_def split: if_splits)
  from assms show "length (calls s') = length (calls s)"
    by (auto simp: write_pdu_await_def wait_for_def del_and_return_def del_message_def returned_def
        Let_def split: if_splits list.splits option.splits)
  from assms k show "w_cid (calls s' ! j) = w_cid (calls s ! j)"
    by (cases "j = k")
       (auto simp: write_pdu_await_def wait_for_def del_and_return_def del_message_def returned_def
        Let_def split: if_splits list.splits option.splits)
  from assms show "j \<noteq> k \<Longrightarrow> calls s' ! j = calls s ! j"
    by (auto simp: write_pdu_await_def wait_for_def del_and_return_def del_message_def returned_def
        Let_def split: if_splits list.splits option.splits)
  from assms k show "c \<noteq> w_cid (calls s ! k) \<Longrightarrow> message_dict s' c = message_dict s c"
    by (auto simp: write_pdu_await_def wait_for_def del_and_return_def del_message_def returned_def
        Let_def split: if_splits list.splits option.splits)
qed

lemma await_all_keeps:
  assumes "k0 \<notin> set ks"
      and "\<forall>k \<in> set ks. k < length (calls s) \<longrightarrow> w_cid (calls s ! k) \<noteq> w_cid (calls s ! k0)"
  shows "length (calls (await_all parse ks s)) = length (calls s)
    \<and> calls (await_all parse ks s) ! k0 = calls s ! k0
    \<and> message_dict (await_all parse ks s) (w_cid (calls s ! k0)) = message_dict s (w_cid (calls s ! k0))"
  using assms
proof (induction ks arbitrary: s)
  case Nil
  show ?case by simp
next
  case (Cons k ks)
  let ?s = "case write_pdu_await parse k s of None \<Rightarrow> s | Some (r, s1) \<Rightarrow> s1"
  have keep: "length (calls ?s) = length (calls s)
      \<and> (\<forall>j. w_cid (calls ?s ! j) = w_cid (calls s ! j))
      \<and> calls ?s ! k0 = calls s ! k0
      \<and> message_dict ?s (w_cid (calls s ! k0)) = message_dict s (w_cid (calls s ! k0))"
  proof (cases "write_pdu_await parse k s")
    case None
    then show ?thesis by simp
  next
    case (Some a)
    obtain r s1 where a: "a = (r, s1)" by (cases a)
    have k: "k < length (calls s)"
      using Some by (simp add: write_pdu_await_def split: if_splits)
    have "k \<noteq> k0" using Cons.prems(1) by auto
    moreover have "w_cid (calls s ! k0) \<noteq> w_cid (calls s ! k)"
      using Cons.prems(2) k by auto
    ultimately show ?thesis
      using await_frame [OF Some [unfolded a]] by (simp add: Some a)
  qed
  have "length (calls (await_all parse ks ?s)) = length (calls ?s)
    \<and> calls (await_all parse ks ?s) ! k0 = calls ?s ! k0
    \<and> message_dict (await_all parse ks ?s) (w_cid (calls ?s ! k0)) = message_dict ?s (w_cid (calls ?s ! k0))"
    using Cons.prems keep by (intro Cons.IH) simp_all
  with keep show ?case by simp
qed

subsection \<open>Lists and permutations\<close>

lemma zip_map_upt:
  assumes "length ys = n"
  shows "zip (map f [0..<n]) ys = map (\<lambda>j. (f j, ys ! j)) [0..<n]"
  using assms by (intro nth_equalityI) simp_all

lemma filter_eq_upt:
  assumes "i < n"
  shows "filter (\<lambda>j. j = i) [0..<n] = [i]"
proof -
  have "[0..<n] = [0..<i] @ i # [Suc i..<n]"
    using assms by (metis upt_add_eq_append upt_conv_Cons le0 less_imp_add_positive
        add.commute add_0 less_imp_le_nat le_add_diff_inverse)
  moreover have "filter (\<lambda>j. j = i) [0..<i] = []" by (simp add: filter_empty_conv)
  moreover have "filter (\<lambda>j. j = i) [Suc i..<n] = []" by (simp add: filter_empty_conv)
  ultimately show ?thesis by simp
qed

lemma mset_single_list:
  assumes "mset xs = mset [a]"
  shows "xs = [a]"
  using assms by (cases xs) (auto split: if_splits)

lemma mset_map_perm:
  assumes "mset xs = mset ys"
  shows "mset (map f xs) = mset (map f ys)"
  by (simp add: assms)

lemma distinct_map_perm:
  assumes "mset xs = mset ys" and "distinct (map f ys)"
  shows "distinct (map f xs)"
  using assms mset_map_perm [OF assms(1), of f] by (metis mset_eq_imp_distinct_iff)

lemma mset_map_filter_perm:
  assumes "mset xs = mset ys"
  shows "mset (map g (filter P xs)) = mset (map g (filter P ys))"
proof -
  have "mset (filter P xs) = mset (filter P ys)"
    using assms by (metis mset_filter)
  then show ?thesis by (rule mset_map_perm)
qed

subsection \<open>The claim\<close>

text \<open>
  Claim C1.  At most 65536 sends are started one after the other on a client whose
  listener runs, so that all of them wait at the same time; the cids they are given
  are the next values of the counter and are pairwise different.  The peer answers
  each of them once, and the response frames arrive in any order whatever: the
  stream carries a permutation \<open>frames\<close> of the pairs of a cid and its response.
  After the listener has read the stream, the \<open>i\<close>-th send, when resumed, returns
  the pdu parsed from the payload of the frame that bore its own cid (or lets the
  parser's DecodeError through), whichever other sends of the group were resumed
  before it and in whatever order.
\<close>

theorem responses_matched_by_cid:
  assumes range: "0 \<le> cid s" "cid s \<le> 65535"
      and running: "listener_task s = Running"
      and n: "length pdus \<le> 65536" "length resps = length pdus"
      and fits: "\<forall>p \<in> set pdus. \<forall>t. length (ser t p) \<le> 4294967293"
      and rfits: "\<forall>d \<in> set resps. length d \<le> 4294967293"
      and arrival: "mset frames =
          mset (zip (map (\<lambda>j. (cid s + int j) mod 65536) [0..<length pdus]) resps)"
      and stream: "reader s = wire frames"
      and i: "i < length pdus"
      and others: "length (calls s) + i \<notin> set ks" "\<forall>k \<in> set ks. length (calls s) \<le> k"
  shows "fst (send_all ser pdus s) = map Inr [length (calls s)..<length (calls s) + length pdus]
    \<and> map_option fst
         (write_pdu_await parse (length (calls s) + i)
            (await_all parse ks (listener (snd (send_all ser pdus s)))))
        = Some (case parse (resps ! i) of None \<Rightarrow> Inl DecodeError | Some r \<Rightarrow> Inr (Parsed r))"
proof -
  let ?n = "length pdus"
  let ?L = "length (calls s)"
  let ?c = "\<lambda>j. (cid s + int j) mod 65536"
  let ?new = "\<lambda>j. \<lparr>w_cid = ?c j, w_q = [], w_cancel = False, w_done = False\<rparr>"
  let ?s1 = "snd (send_all ser pdus s)"
  let ?t = "listener ?s1"
  let ?u = "await_all parse ks ?t"
  let ?zs = "map (\<lambda>j. (?c j, resps ! j)) [0..<?n]"
  let ?P = "\<lambda>q f. message_dict ?s1 (fst f) = Some q"
  have results: "fst (send_all ser pdus s) = map Inr [?L..<?L + ?n]"
    using range fits by (rule send_all_results)
  have calls1: "calls ?s1 = calls s @ map ?new [0..<?n]"
    using range fits by (rule send_all_calls)
  have len1: "length (calls ?s1) = ?L + ?n"
    by (simp add: calls1)
  have nth1: "calls ?s1 ! (?L + j) = ?new j" if "j < ?n" for j
    using that by (simp add: calls1 nth_append)
  have dict1: "message_dict ?s1 (?c j) = Some (?L + j)" if "j < ?n" for j
    using range fits n(1) that by (rule send_all_dict_new)
  have zs: "zip (map ?c [0..<?n]) resps = ?zs"
    using n(2) by (rule zip_map_upt)
  have frames: "mset frames = mset ?zs"
    using arrival by (simp only: zs)
  have set_frames: "set frames = set ?zs"
    using frames by (rule mset_eq_setD)
  have member: "\<exists>j < ?n. f = (?c j, resps ! j)" if "f \<in> set frames" for f
    using that by (auto simp: set_frames)
  have wf_frames: "\<forall>f \<in> set frames. 0 \<le> fst f \<and> fst f \<le> 65535 \<and> length (snd f) \<le> 4294967293"
  proof
    fix f assume "f \<in> set frames"
    then obtain j where j: "j < ?n" "f = (?c j, resps ! j)"
      using member by blast
    then have "resps ! j \<in> set resps"
      using n(2) by simp
    with rfits j show "0 \<le> fst f \<and> fst f \<le> 65535 \<and> length (snd f) \<le> 4294967293"
      by simp
  qed
  have targets: "\<forall>f \<in> set frames. \<exists>q. message_dict ?s1 (fst f) = Some q \<and> q < length (calls ?s1)
             \<and> w_q (calls ?s1 ! q) = []"
  proof
    fix f assume "f \<in> set frames"
    then obtain j where j: "j < ?n" "f = (?c j, resps ! j)"
      using member by blast
    then have "message_dict ?s1 (fst f) = Some (?L + j) \<and> ?L + j < length (calls ?s1)
        \<and> w_q (calls ?s1 ! (?L + j)) = []"
      by (simp add: dict1 len1 nth1)
    then show "\<exists>q. message_dict ?s1 (fst f) = Some q \<and> q < length (calls ?s1)
             \<and> w_q (calls ?s1 ! q) = []"
      by blast
  qed
  have map_zs: "map (\<lambda>f. message_dict ?s1 (fst f)) ?zs = map (\<lambda>j. Some (?L + j)) [0..<?n]"
    by (simp add: dict1)
  have "distinct (map (\<lambda>f. message_dict ?s1 (fst f)) ?zs)"
    by (simp only: map_zs) (simp add: distinct_map inj_on_def)
  with frames have dist: "distinct (map (\<lambda>f. message_dict ?s1 (fst f)) frames)"
    by (rule distinct_map_perm)
  have run: "message_dict ?t = message_dict ?s1
    \<and> length (calls ?t) = length (calls ?s1)
    \<and> (\<forall>q < length (calls ?s1). calls ?t ! q =
          (calls ?s1 ! q)\<lparr>w_q := w_q (calls ?s1 ! q) @ map snd (filter (?P q) frames)\<rparr>)"
  proof (rule listener_run)
    show "listener_task ?s1 = Running" using running by (simp add: send_all_frame)
    show "reader ?s1 = wire frames" using stream by (simp add: send_all_frame)
  qed (rule wf_frames dist targets)+
  have "filter (\<lambda>j. message_dict ?s1 (?c j) = Some (?L + i)) [0..<?n] = filter (\<lambda>j. j = i) [0..<?n]"
    by (rule filter_cong) (simp_all add: dict1)
  then have "filter (?P (?L + i)) ?zs = map (\<lambda>j. (?c j, resps ! j)) (filter (\<lambda>j. j = i) [0..<?n])"
    by (simp add: filter_map comp_def)
  then have sel: "map snd (filter (?P (?L + i)) ?zs) = [resps ! i]"
    using i by (simp add: filter_eq_upt)
  have "mset (map snd (filter (?P (?L + i)) frames)) = mset (map snd (filter (?P (?L + i)) ?zs))"
    using frames by (rule mset_map_filter_perm)
  then have got: "map snd (filter (?P (?L + i)) frames) = [resps ! i]"
    by (simp only: sel) (rule mset_single_list)
  have ti: "calls ?t ! (?L + i) = \<lparr>w_cid = ?c i, w_q = [resps ! i], w_cancel = False, w_done = False\<rparr>"
    using run i by (simp add: len1 nth1 got)
  have tcid: "w_cid (calls ?t ! (?L + j)) = ?c j" if "j < ?n" for j
    using run that by (simp add: len1 nth1)
  have distinct_cids: "\<forall>k \<in> set ks. k < length (calls ?t) \<longrightarrow>
      w_cid (calls ?t ! k) \<noteq> w_cid (calls ?t ! (?L + i))"
  proof (intro ballI impI)
    fix k assume k: "k \<in> set ks" "k < length (calls ?t)"
    with others run obtain j where j: "k = ?L + j" "j < ?n" "j \<noteq> i"
      by (metis len1 le_Suc_ex nat_add_left_cancel_less)
    have "?c j \<noteq> ?c i"
    proof (cases "j < i")
      case True
      with i n(1) show ?thesis by (intro cid_offsets_differ) simp_all
    next
      case False
      with j i n(1) have "?c i \<noteq> ?c j" by (intro cid_offsets_differ) simp_all
      then show ?thesis by simp
    qed
    with j i show "w_cid (calls ?t ! k) \<noteq> w_cid (calls ?t ! (?L + i))"
      by (simp add: tcid)
  qed
  have keep: "length (calls ?u) = length (calls ?t)
    \<and> calls ?u ! (?L + i) = calls ?t ! (?L + i)
    \<and> message_dict ?u (w_cid (calls ?t ! (?L + i))) = message_dict ?t (w_cid (calls ?t ! (?L + i)))"
    using others(1) distinct_cids by (rule await_all_keeps)
  have ui: "calls ?u ! (?L + i) = \<lparr>w_cid = ?c i, w_q = [resps ! i], w_cancel = False, w_done = False\<rparr>"
    using keep ti by simp
  have udict: "message_dict ?u (?c i) = Some (?L + i)"
    using keep run i by (simp add: ti dict1)
  have ulen: "?L + i < length (calls ?u)"
    using keep run i by (simp add: len1)
  have "map_option fst (write_pdu_await parse (?L + i) ?u)
        = Some (case parse (resps ! i) of None \<Rightarrow> Inl DecodeError | Some r \<Rightarrow> Inr (Parsed r))"
    using ulen by (rule await_item) (simp_all add: ui udict)
  with results show ?thesis by simp
qed

theorem responses_matched_by_cid_witness:
  "mset [(1, [20]), (0, [10 :: byte])]
     = mset (zip (map (\<lambda>j. (cid (init (wire [(1, [20]), (0, [10])])) + int j) mod 65536)
                   [0..<length [[1], [2 :: byte]]]) [[10], [20]])
   \<and> fst (send_all (\<lambda>t p. p) [[1], [2]] (init (wire [(1, [20]), (0, [10])]))) = [Inr 0, Inr 1]
   \<and> map_option fst
        (write_pdu_await Some 0
           (await_all Some [1]
              (listener (snd (send_all (\<lambda>t p. p) [[1], [2]] (init (wire [(1, [20]), (0, [10])])))))))
       = Some (Inr (Parsed [10]))
   \<and> map_option fst
        (write_pdu_await Some 1
           (await_all Some []
              (listener (snd (send_all (\<lambda>t p. p) [[1], [2]] (init (wire [(1, [20]), (0, [10])])))))))
       = Some (Inr (Parsed [20]))"
proof -
  let ?frames = "[(1, [20]), (0, [10 :: byte])]"
  let ?s = "init (wire ?frames)"
  have s: "0 \<le> cid ?s" "cid ?s \<le> 65535" "listener_task ?s = Running" "reader ?s = wire ?frames"
    "length (calls ?s) = 0"
    by simp_all
  have n: "length [[1], [2 :: byte]] \<le> 65536" "length [[10], [20 :: byte]] = length [[1], [2 :: byte]]"
    by simp_all
  have fits: "\<forall>p \<in> set [[1], [2 :: byte]]. \<forall>t :: int. length ((\<lambda>t p. p) t p) \<le> 4294967293"
    by simp
  have rfits: "\<forall>d \<in> set [[10], [20 :: byte]]. length d \<le> 4294967293"
    by simp
  have arrival: "mset ?frames
     = mset (zip (map (\<lambda>j. (cid ?s + int j) mod 65536) [0..<length [[1], [2 :: byte]]]) [[10], [20]])"
    by (simp add: upt_rec)
  have 0: "fst (send_all (\<lambda>t p. p) [[1], [2]] ?s) = map Inr [length (calls ?s)..<length (calls ?s) + length [[1], [2 :: byte]]]
    \<and> map_option fst
         (write_pdu_await Some (length (calls ?s) + 0)
            (await_all Some [1] (listener (snd (send_all (\<lambda>t p. p) [[1], [2]] ?s)))))
        = Some (case Some ([[10], [20]] ! 0) of None \<Rightarrow> Inl DecodeError | Some r \<Rightarrow> Inr (Parsed r))"
    using s(1,2,3) n fits rfits arrival s(4)
    by (rule responses_matched_by_cid) simp_all
  have 1: "fst (send_all (\<lambda>t p. p) [[1], [2]] ?s) = map Inr [length (calls ?s)..<length (calls ?s) + length [[1], [2 :: byte]]]
    \<and> map_option fst
         (write_pdu_await Some (length (calls ?s) + 1)
            (await_all Some [] (listener (snd (send_all (\<lambda>t p. p) [[1], [2]] ?s)))))
        = Some (case Some ([[10], [20]] ! 1) of None \<Rightarrow> Inl DecodeError | Some r \<Rightarrow> Inr (Parsed r))"
    using s(1,2,3) n fits rfits arrival s(4)
    by (rule responses_matched_by_cid) simp_all
  from 0 1 arrival show ?thesis
    by (simp add: upt_rec)
qed

end
